theory Spec2Isabelle
  imports Main "HOL-Library.Multiset" "HOL-Library.Word"
begin

section \<open>Go channels\<close>

text \<open>
  The repository is a collection of Go programs built on the language's channels:
  \<^verbatim>\<open>make(chan T, n)\<close>, \<^verbatim>\<open>ch <- v\<close>, \<^verbatim>\<open><-ch\<close>, \<^verbatim>\<open>for v := range ch\<close> and \<^verbatim>\<open>close(ch)\<close>.
  A buffered channel is a record of its pending values (oldest first), its capacity and
  its closed flag. An operation either completes, blocks the goroutine that attempts it,
  or panics, as the comments of the channel tutorial state: the sender blocks only when
  the buffer is full, the receiver blocks only when the buffer is empty, a range loop
  receives until the channel is closed and empty, and closing twice panics.
\<close>

record 'a chan =
  buf :: "'a list"
  cap :: nat
  closed :: bool

datatype 'a outcome = Completes 'a | Blocks | Panics

definition make_chan :: "nat \<Rightarrow> 'a chan" where
  "make_chan n = \<lparr>buf = [], cap = n, closed = False\<rparr>"

definition chan_send :: "'a \<Rightarrow> 'a chan \<Rightarrow> 'a chan outcome" where
  "chan_send v c =
     (if closed c then Panics
      else if length (buf c) < cap c then Completes (c\<lparr>buf := buf c @ [v]\<rparr>)
      else Blocks)"

text \<open>
  A receive yields \<open>Some v\<close> for a value and \<open>None\<close> once the channel is closed and
  drained (the zero value with \<open>ok = false\<close>; a range loop ends there).
\<close>

definition chan_recv :: "'a chan \<Rightarrow> ('a option \<times> 'a chan) outcome" where
  "chan_recv c =
     (case buf c of
        v # rest \<Rightarrow> Completes (Some v, c\<lparr>buf := rest\<rparr>)
      | [] \<Rightarrow> if closed c then Completes (None, c) else Blocks)"

definition chan_close :: "'a chan \<Rightarrow> 'a chan outcome" where
  "chan_close c = (if closed c then Panics else Completes (c\<lparr>closed := True\<rparr>))"

text \<open>
  \<^verbatim>\<open>select { case ch <- v: ... default: ... }\<close>: the send is taken when it can
  proceed, the default branch otherwise. The flag tells which branch ran.
\<close>

definition try_send :: "'a \<Rightarrow> 'a chan \<Rightarrow> (bool \<times> 'a chan) outcome" where
  "try_send v c =
     (case chan_send v c of
        Completes c' \<Rightarrow> Completes (True, c')
      | Blocks \<Rightarrow> Completes (False, c)
      | Panics \<Rightarrow> Panics)"

subsection \<open>Sequences of channel operations\<close>

text \<open>
  A sequence of operations attempted on one channel, with what each one did. An
  operation that cannot proceed is recorded as \<open>Blocked\<close> and leaves the channel as
  it was; so does one that panics.
\<close>

datatype 'a chan_op = Send 'a | Recv | Close

datatype 'a event = Enq 'a | Deq 'a | DeqClosed | Closed | Blocked | Panicked

definition chan_do :: "'a chan_op \<Rightarrow> 'a chan \<Rightarrow> 'a event \<times> 'a chan" where
  "chan_do op c =
     (case op of
        Send v \<Rightarrow>
          (case chan_send v c of
             Completes c' \<Rightarrow> (Enq v, c') | Blocks \<Rightarrow> (Blocked, c) | Panics \<Rightarrow> (Panicked, c))
      | Recv \<Rightarrow>
          (case chan_recv c of
             Completes (Some v, c') \<Rightarrow> (Deq v, c')
           | Completes (None, c') \<Rightarrow> (DeqClosed, c')
           | Blocks \<Rightarrow> (Blocked, c)
           | Panics \<Rightarrow> (Panicked, c))
      | Close \<Rightarrow>
          (case chan_close c of
             Completes c' \<Rightarrow> (Closed, c') | Blocks \<Rightarrow> (Blocked, c) | Panics \<Rightarrow> (Panicked, c)))"

fun run_ops :: "'a chan_op list \<Rightarrow> 'a chan \<Rightarrow> 'a event list \<times> 'a chan" where
  "run_ops [] c = ([], c)"
| "run_ops (op # ops) c =
     (case chan_do op c of (e, c') \<Rightarrow> (case run_ops ops c' of (es, c'') \<Rightarrow> (e # es, c'')))"

fun enqueued :: "'a event list \<Rightarrow> 'a list" where
  "enqueued [] = []"
| "enqueued (Enq v # es) = v # enqueued es"
| "enqueued (_ # es) = enqueued es"

fun dequeued :: "'a event list \<Rightarrow> 'a list" where
  "dequeued [] = []"
| "dequeued (Deq v # es) = v # dequeued es"
| "dequeued (_ # es) = dequeued es"

subsection \<open>Sequential use of a channel\<close>

text \<open>
  Statements of one goroutine run in order; the first one that blocks or panics decides
  the outcome of the whole sequence.
\<close>

definition obind :: "'a outcome \<Rightarrow> ('a \<Rightarrow> 'b outcome) \<Rightarrow> 'b outcome" where
  "obind m f = (case m of Completes x \<Rightarrow> f x | Blocks \<Rightarrow> Blocks | Panics \<Rightarrow> Panics)"

fun send_all :: "'a list \<Rightarrow> 'a chan \<Rightarrow> 'a chan outcome" where
  "send_all [] c = Completes c"
| "send_all (v # vs) c = obind (chan_send v c) (send_all vs)"

text \<open>
  The channel tutorial's \<^verbatim>\<open>producer\<close> sends 1, 2, 3 and closes the channel on return
  (\<^verbatim>\<open>defer close(ch)\<close>); its \<^verbatim>\<open>consumer\<close> ranges over the channel and prints each
  value. Run one after the other they are the schedule in which the producer finishes
  first, which the capacity 5 of \<^verbatim>\<open>workStream\<close> allows.
\<close>

definition producer :: "int chan \<Rightarrow> int chan outcome" where
  "producer ch = obind (send_all [1, 2, 3] ch) chan_close"

function consumer_loop :: "int chan \<Rightarrow> int list \<Rightarrow> (int list \<times> int chan) outcome" where
  "consumer_loop ch seen =
     (case chan_recv ch of
        Completes (Some num, ch') \<Rightarrow> consumer_loop ch' (seen @ [num])
      | Completes (None, ch') \<Rightarrow> Completes (seen, ch')
      | Blocks \<Rightarrow> Blocks
      | Panics \<Rightarrow> Panics)"
  by pat_completeness auto
termination
  by (relation "measure (\<lambda>(ch, seen). length (buf ch))")
     (auto simp: chan_recv_def split: list.splits if_splits)

declare consumer_loop.simps [simp del]

definition consumer :: "int chan \<Rightarrow> (int list \<times> int chan) outcome" where
  "consumer ch = consumer_loop ch []"

definition workStream :: "int chan" where
  "workStream = make_chan 5"

text \<open>
  The select tutorial's non-blocking writes: two \<^verbatim>\<open>select\<close> statements with a default
  branch on \<^verbatim>\<open>queue := make(chan int, 1)\<close>; the result is the lines printed and the
  channel afterwards.
\<close>

definition write_report :: "bool \<Rightarrow> string" where
  "write_report ok = (if ok then ''Enqueued job'' else ''Queue full, dropping job'')"

definition nonblocking_writes :: "(string list \<times> int chan) outcome" where
  "nonblocking_writes =
     obind (try_send 1 (make_chan 1)) (\<lambda>(s1, q1).
     obind (try_send 2 q1) (\<lambda>(s2, q2).
     Completes ([write_report s1, write_report s2], q2)))"

section \<open>The worker pool\<close>

text \<open>
  \<^verbatim>\<open>Job\<close> and \<^verbatim>\<open>Result\<close> as the worker-pool program declares them. The \<^verbatim>\<open>Duration\<close>
  field of a Result is a wall-clock measurement and is left out, as is console output
  other than the results that \<^verbatim>\<open>main\<close> reports.
\<close>

record Job =
  ID :: int
  Filename :: string

record Result =
  JobID :: int
  Status :: string

definition numWorkers :: nat where
  "numWorkers = 3"

definition numJobs :: nat where
  "numJobs = 10"

fun itoa :: "nat \<Rightarrow> string" where
  "itoa n =
     (if n < 10 then [char_of (48 + n)] else itoa (n div 10) @ [char_of (48 + n mod 10)])"

declare itoa.simps [simp del]

definition mkJob :: "nat \<Rightarrow> Job" where
  "mkJob j = \<lparr>ID = int j, Filename = ''data_'' @ itoa j @ ''.csv''\<rparr>"

definition zero_Result :: Result where
  "zero_Result = \<lparr>JobID = 0, Status = []\<rparr>"

text \<open>
  Program points. \<^verbatim>\<open>main\<close> starts the workers (\<open>MSpawn w\<close>), sends the jobs
  (\<open>MProduce j\<close>), closes the jobs channel, collects \<open>numJobs\<close> results
  (\<open>MCollect i\<close>) and returns. A worker is at its receive (the head of
  \<^verbatim>\<open>for job := range jobs\<close>), at work on a job, at the send of a result, or past its loop.
  The work on a job is \<^verbatim>\<open>time.Sleep(500 * time.Millisecond)\<close>, which returns normally:
  the step from \<open>WWork job\<close> to the send of the job's result. \<^verbatim>\<open>worker\<close> defers no
  function and calls no \<^verbatim>\<open>recover\<close>, so a panic in it is recovered nowhere.
\<close>

datatype mpc = MSpawn nat | MProduce nat | MClose | MCollect nat | MDone

datatype wpc = WRecv | WWork Job | WSend Result | WExit

record pool =
  jobs :: "Job chan"
  results :: "Result chan"
  mainpc :: mpc
  workers :: "wpc list"
  collected :: "Result list"
  crashed :: "string option"

definition init_pool :: pool where
  "init_pool =
     \<lparr>jobs = make_chan numJobs, results = make_chan numJobs, mainpc = MSpawn 1,
      workers = [], collected = [], crashed = None\<rparr>"

text \<open>A panic that no deferred function recovers ends the whole program.\<close>

definition crash :: "string \<Rightarrow> pool \<Rightarrow> pool" where
  "crash msg s = s\<lparr>crashed := Some msg\<rparr>"

definition step_main :: "pool \<Rightarrow> pool option" where
  "step_main s =
     (case mainpc s of
        MSpawn w \<Rightarrow>
          if w \<le> numWorkers
          then Some (s\<lparr>workers := workers s @ [WRecv], mainpc := MSpawn (w + 1)\<rparr>)
          else Some (s\<lparr>mainpc := MProduce 1\<rparr>)
      | MProduce j \<Rightarrow>
          if j \<le> numJobs
          then (case chan_send (mkJob j) (jobs s) of
                  Completes c \<Rightarrow> Some (s\<lparr>jobs := c, mainpc := MProduce (j + 1)\<rparr>)
                | Blocks \<Rightarrow> None
                | Panics \<Rightarrow> Some (crash ''send on closed channel'' s))
          else Some (s\<lparr>mainpc := MClose\<rparr>)
      | MClose \<Rightarrow>
          (case chan_close (jobs s) of
             Completes c \<Rightarrow> Some (s\<lparr>jobs := c, mainpc := MCollect 1\<rparr>)
           | Blocks \<Rightarrow> None
           | Panics \<Rightarrow> Some (crash ''close of closed channel'' s))
      | MCollect i \<Rightarrow>
          if i \<le> numJobs
          then (case chan_recv (results s) of
                  Completes (r, c) \<Rightarrow>
                    Some (s\<lparr>results := c,
                            collected := collected s @ [case r of Some res \<Rightarrow> res | None \<Rightarrow> zero_Result],
                            mainpc := MCollect (i + 1)\<rparr>)
                | Blocks \<Rightarrow> None
                | Panics \<Rightarrow> None)
          else Some (s\<lparr>mainpc := MDone\<rparr>)
      | MDone \<Rightarrow> None)"

definition step_worker :: "nat \<Rightarrow> pool \<Rightarrow> pool option" where
  "step_worker i s =
     (if i < length (workers s)
      then (case workers s ! i of
              WRecv \<Rightarrow>
                (case chan_recv (jobs s) of
                   Completes (Some job, c) \<Rightarrow>
                     Some (s\<lparr>jobs := c, workers := (workers s)[i := WWork job]\<rparr>)
                 | Completes (None, c) \<Rightarrow> Some (s\<lparr>workers := (workers s)[i := WExit]\<rparr>)
                 | Blocks \<Rightarrow> None
                 | Panics \<Rightarrow> None)
            | WWork job \<Rightarrow>
                Some (s\<lparr>workers :=
                          (workers s)[i := WSend \<lparr>JobID = ID job, Status = ''Success''\<rparr>]\<rparr>)
            | WSend res \<Rightarrow>
                (case chan_send res (results s) of
                   Completes c \<Rightarrow> Some (s\<lparr>results := c, workers := (workers s)[i := WRecv]\<rparr>)
                 | Blocks \<Rightarrow> None
                 | Panics \<Rightarrow> Some (crash ''send on closed channel'' s))
            | WExit \<Rightarrow> None)
      else None)"

text \<open>
  One step of the goroutine the scheduler picks: \<open>None\<close> when it cannot move (blocked,
  finished or not started). Nothing moves once \<^verbatim>\<open>main\<close> has returned or the program
  has crashed.
\<close>

datatype tid = Main | Worker nat

definition step :: "tid \<Rightarrow> pool \<Rightarrow> pool option" where
  "step t s =
     (if crashed s \<noteq> None \<or> mainpc s = MDone then None
      else (case t of Main \<Rightarrow> step_main s | Worker i \<Rightarrow> step_worker i s))"

inductive reachable :: "pool \<Rightarrow> bool" where
  reach_init: "reachable init_pool"
| reach_step: "reachable s \<Longrightarrow> step t s = Some s' \<Longrightarrow> reachable s'"

text \<open>Running a schedule: a pick of a goroutine that cannot move changes nothing.\<close>

fun exec :: "tid list \<Rightarrow> pool \<Rightarrow> pool" where
  "exec [] s = s"
| "exec (t # ts) s = (case step t s of Some s' \<Rightarrow> exec ts s' | None \<Rightarrow> exec ts s)"

subsection \<open>Accounting of jobs\<close>

text \<open>
  \<open>next_job s\<close> is the identifier of the next job \<^verbatim>\<open>main\<close> will send, so the jobs
  sent so far are those below it; \<open>outs s\<close> are the job identifiers that have left the
  jobs channel: those a worker holds, those of results in the results channel and those
  of results \<^verbatim>\<open>main\<close> has collected.
\<close>

definition next_job :: "pool \<Rightarrow> nat" where
  "next_job s = (case mainpc s of MSpawn w \<Rightarrow> 1 | MProduce j \<Rightarrow> j | _ \<Rightarrow> numJobs + 1)"

fun wpc_ids :: "wpc \<Rightarrow> int multiset" where
  "wpc_ids WRecv = {#}"
| "wpc_ids (WWork job) = {#ID job#}"
| "wpc_ids (WSend res) = {#JobID res#}"
| "wpc_ids WExit = {#}"

definition held :: "wpc list \<Rightarrow> int multiset" where
  "held ws = sum_list (map wpc_ids ws)"

definition outs :: "pool \<Rightarrow> int multiset" where
  "outs s = held (workers s) + mset (map JobID (buf (results s))) + mset (map JobID (collected s))"

definition job_ids :: "nat \<Rightarrow> nat \<Rightarrow> int list" where
  "job_ids a b = map int [a..<b]"

subsection \<open>A measure of the work left\<close>

fun main_weight :: "mpc \<Rightarrow> nat" where
  "main_weight (MSpawn w) = 2 * (numWorkers + 1 - w) + 5 * numJobs + 5"
| "main_weight (MProduce j) = 4 * (numJobs + 1 - j) + numJobs + 4"
| "main_weight MClose = numJobs + 3"
| "main_weight (MCollect i) = (numJobs + 1 - i) + 1"
| "main_weight MDone = 0"

fun wpc_weight :: "wpc \<Rightarrow> nat" where
  "wpc_weight WRecv = 1"
| "wpc_weight (WWork job) = 3"
| "wpc_weight (WSend res) = 2"
| "wpc_weight WExit = 0"

definition pool_measure :: "pool \<Rightarrow> nat" where
  "pool_measure s =
     (if crashed s \<noteq> None then 0
      else 1 + main_weight (mainpc s) + 3 * length (buf (jobs s))
             + sum_list (map wpc_weight (workers s)))"

subsection \<open>The invariant of the pool\<close>

text \<open>
  What holds in every state the program reaches: no crash; both channels keep the
  capacity \<open>numJobs\<close>; the results channel is never closed and the jobs channel is
  closed exactly once \<^verbatim>\<open>main\<close> is past \<^verbatim>\<open>close(jobs)\<close>; the jobs channel holds the
  jobs not yet taken, in the order sent; the identifiers that left it are those of the
  first jobs, each once; a worker is past its loop only when the jobs channel is closed
  and empty; and the counters of \<^verbatim>\<open>main\<close> agree with what it has done.
\<close>

definition main_ok :: "pool \<Rightarrow> bool" where
  "main_ok s =
     (case mainpc s of
        MSpawn w \<Rightarrow>
          1 \<le> w \<and> w \<le> numWorkers + 1 \<and> length (workers s) = w - 1 \<and> collected s = []
      | MProduce j \<Rightarrow>
          1 \<le> j \<and> j \<le> numJobs + 1 \<and> length (workers s) = numWorkers \<and> collected s = []
      | MClose \<Rightarrow> length (workers s) = numWorkers \<and> collected s = []
      | MCollect i \<Rightarrow>
          1 \<le> i \<and> i \<le> numJobs + 1 \<and> length (workers s) = numWorkers
          \<and> length (collected s) = i - 1
      | MDone \<Rightarrow> length (workers s) = numWorkers \<and> length (collected s) = numJobs)"

definition jobs_closed_at :: "mpc \<Rightarrow> bool" where
  "jobs_closed_at pc = (case pc of MCollect i \<Rightarrow> True | MDone \<Rightarrow> True | _ \<Rightarrow> False)"

definition pool_inv :: "pool \<Rightarrow> bool" where
  "pool_inv s \<longleftrightarrow>
     crashed s = None \<and>
     cap (jobs s) = numJobs \<and> cap (results s) = numJobs \<and>
     \<not> closed (results s) \<and>
     closed (jobs s) = jobs_closed_at (mainpc s) \<and>
     size (outs s) < next_job s \<and>
     buf (jobs s) = map mkJob [size (outs s) + 1 ..< next_job s] \<and>
     outs s = mset (job_ids 1 (size (outs s) + 1)) \<and>
     (WExit \<in> set (workers s) \<longrightarrow> closed (jobs s) \<and> buf (jobs s) = []) \<and>
     main_ok s"


subsection \<open>Schedules\<close>

text \<open>
  A complete run: \<^verbatim>\<open>main\<close> starts the workers, sends every job and closes the channel
  (16 steps); each job is then received, worked on and answered by one of the three
  workers in turn; \<^verbatim>\<open>main\<close> collects the ten results and returns (11 steps).
\<close>

definition full_schedule :: "tid list" where
  "full_schedule =
     replicate 16 Main
     @ concat (map (\<lambda>k. replicate 3 (Worker (k mod 3))) [0..<10])
     @ replicate 11 Main"


section \<open>The channel pipeline of the concurrency test\<close>

text \<open>
  \<^verbatim>\<open>worker(input, output)\<close> of the concurrency test doubles what it receives:
  \<^verbatim>\<open>for v := range input { output <- v * 2 }\<close>. Both channels are unbuffered, so a
  value passes from sender to receiver in one joint step. Go's \<^verbatim>\<open>int\<close> is a 64-bit
  two's-complement integer on the usual platforms and its multiplication wraps around.

  The test feeds the values from a goroutine that closes \<^verbatim>\<open>input\<close> when it returns, and
  receives as many results as it fed. \<open>feed\<close> are the values still to be sent, \<open>wk\<close>
  the worker's program point (\<open>PSend w\<close>: about to send \<open>w\<close>), \<open>need\<close> the number of
  receives of the test and \<open>got\<close> its \<^verbatim>\<open>results\<close> slice.
\<close>

type_synonym go_int = "64 word"

datatype ppc = PRecv | PSend go_int | PExit

record pipeline =
  feed :: "go_int list"
  input_closed :: bool
  wk :: ppc
  need :: nat
  got :: "go_int list"

definition pipeline_init :: "go_int list \<Rightarrow> pipeline" where
  "pipeline_init xs =
     \<lparr>feed = xs, input_closed = False, wk = PRecv, need = length xs, got = []\<rparr>"

datatype pact = HandIn | CloseIn | WorkerExit | HandOut

definition pstep :: "pact \<Rightarrow> pipeline \<Rightarrow> pipeline option" where
  "pstep a s =
     (case a of
        HandIn \<Rightarrow>
          (case feed s of
             v # rest \<Rightarrow> if wk s = PRecv then Some (s\<lparr>feed := rest, wk := PSend (v * 2)\<rparr>) else None
           | [] \<Rightarrow> None)
      | CloseIn \<Rightarrow>
          if feed s = [] \<and> \<not> input_closed s then Some (s\<lparr>input_closed := True\<rparr>) else None
      | WorkerExit \<Rightarrow>
          if wk s = PRecv \<and> input_closed s then Some (s\<lparr>wk := PExit\<rparr>) else None
      | HandOut \<Rightarrow>
          (case wk s of
             PSend w \<Rightarrow>
               if length (got s) < need s then Some (s\<lparr>wk := PRecv, got := got s @ [w]\<rparr>)
               else None
           | _ \<Rightarrow> None))"

inductive preachable :: "go_int list \<Rightarrow> pipeline \<Rightarrow> bool" for xs :: "go_int list" where
  preach_init: "preachable xs (pipeline_init xs)"
| preach_step: "preachable xs s \<Longrightarrow> pstep a s = Some s' \<Longrightarrow> preachable xs s'"

fun pexec :: "pact list \<Rightarrow> pipeline \<Rightarrow> pipeline" where
  "pexec [] s = s"
| "pexec (a # as) s = (case pstep a s of Some s' \<Rightarrow> pexec as s' | None \<Rightarrow> pexec as s)"

fun ppc_weight :: "ppc \<Rightarrow> nat" where
  "ppc_weight PRecv = 1"
| "ppc_weight (PSend w) = 2"
| "ppc_weight PExit = 0"

definition pmeasure :: "pipeline \<Rightarrow> nat" where
  "pmeasure s = 2 * length (feed s) + (if input_closed s then 0 else 1) + ppc_weight (wk s)"

fun pending :: "ppc \<Rightarrow> go_int list" where
  "pending (PSend w) = [w]"
| "pending _ = []"

definition pipeline_inv :: "go_int list \<Rightarrow> pipeline \<Rightarrow> bool" where
  "pipeline_inv xs s \<longleftrightarrow>
     need s = length xs \<and>
     got s @ pending (wk s) @ map (\<lambda>v. v * 2) (feed s) = map (\<lambda>v. v * 2) xs \<and>
     (input_closed s \<longrightarrow> feed s = []) \<and>
     (wk s = PExit \<longrightarrow> input_closed s)"

text \<open>
  \<^verbatim>\<open>TestWorker_ChannelPipeline\<close>: the values 1 to 5, the expected slice and the index
  of the first result that differs from it (the test fails there).
\<close>

definition test_inputs :: "go_int list" where
  "test_inputs = [1, 2, 3, 4, 5]"

definition expected :: "go_int list" where
  "expected = [2, 4, 6, 8, 10]"

definition first_mismatch :: "go_int list \<Rightarrow> nat option" where
  "first_mismatch rs = find (\<lambda>i. rs ! i \<noteq> expected ! i) [0..<length expected]"

definition in_turn :: "nat \<Rightarrow> pact list" where
  "in_turn n = concat (replicate n [HandIn, HandOut])"

section \<open>Cancellation scopes\<close>

text \<open>
  Modelled from the spec: the cancellation scope. The programs obtain their scopes from
  the standard library (\<^verbatim>\<open>context.WithTimeout\<close>, \<^verbatim>\<open>context.WithCancel\<close>) and only call
  \<^verbatim>\<open>cancel\<close>, \<^verbatim>\<open>Done\<close> and \<^verbatim>\<open>Err\<close>; the implementation of the scope is not part of
  the sources. As the specification has it: a scope has an optional absolute deadline and
  a manual trigger; \<open>Cancel\<close> is idempotent and sets the trigger; the scope is done once
  the deadline has passed or \<open>Cancel\<close> was called, whichever comes first; \<open>Err\<close> is
  nil (\<open>None\<close>) before and \<open>DeadlineExceeded\<close> or \<open>Cancelled\<close> after, telling the
  two causes apart.
\<close>

datatype scope_err = Cancelled | DeadlineExceeded

text \<open>Modelled from the spec: the data of a scope (deadline, trigger, cause).\<close>

record scope =
  deadline :: "nat option"
  triggered :: bool
  err :: "scope_err option"

definition new_scope :: "nat option \<Rightarrow> scope" where
  "new_scope d = \<lparr>deadline = d, triggered = False, err = None\<rparr>"

text \<open>
  Modelled from the spec: \<open>Cancel\<close> sets the trigger of a live scope and has no effect
  on a scope that is done.
\<close>

definition Cancel :: "scope \<Rightarrow> scope" where
  "Cancel c = (if err c = None then c\<lparr>triggered := True, err := Some Cancelled\<rparr> else c)"

text \<open>
  Modelled from the spec: a live scope becomes done, with cause \<open>DeadlineExceeded\<close>,
  when the clock reaches its deadline.
\<close>

definition clock_reaches :: "nat \<Rightarrow> scope \<Rightarrow> scope" where
  "clock_reaches t c =
     (if err c = None \<and> (case deadline c of Some d \<Rightarrow> d \<le> t | None \<Rightarrow> False)
      then c\<lparr>err := Some DeadlineExceeded\<rparr> else c)"

text \<open>Modelled from the spec: \<open>Done\<close> and \<open>Err\<close> report whether and why a scope is done.\<close>

definition Done :: "scope \<Rightarrow> bool" where
  "Done c = (err c \<noteq> None)"

definition Err :: "scope \<Rightarrow> scope_err option" where
  "Err c = err c"

datatype scope_event = DoCancel | Clock nat

fun scope_step :: "scope_event \<Rightarrow> scope \<Rightarrow> scope" where
  "scope_step DoCancel c = Cancel c"
| "scope_step (Clock t) c = clock_reaches t c"

fun scope_run :: "scope_event list \<Rightarrow> scope \<Rightarrow> scope" where
  "scope_run [] c = c"
| "scope_run (e # es) c = scope_run es (scope_step e c)"

text \<open>The number of events of a run that changed the scope.\<close>

fun transitions :: "scope_event list \<Rightarrow> scope \<Rightarrow> nat" where
  "transitions [] c = 0"
| "transitions (e # es) c =
     (if scope_step e c = c then 0 else 1) + transitions es (scope_step e c)"

text \<open>
  The two scopes of the context tutorial's \<^verbatim>\<open>main\<close>, with time in seconds from its
  start: a timeout of two seconds whose deferred \<^verbatim>\<open>cancel()\<close> runs after the deadline
  has passed, and a scope that \<^verbatim>\<open>stop()\<close> cancels by hand.
\<close>

definition timeout_scope :: scope where
  "timeout_scope = new_scope (Some 2)"

definition manual_scope :: scope where
  "manual_scope = new_scope None"

text \<open>
  \<^verbatim>\<open>makeRequest\<close> of the context tutorial waits in a \<^verbatim>\<open>select\<close> for its timer
  (\<^verbatim>\<open>time.After(duration)\<close>) or for \<^verbatim>\<open>ctx.Done()\<close>, and in the second case reports
  \<^verbatim>\<open>ctx.Err()\<close>. On entry the select takes a case that is ready; when both are (the
  scope is done and the timer has fired already, \<open>timer_ready\<close>) it picks one of them at
  random, the timer's if \<open>pick_timer\<close>. When neither is ready it waits for the first
  event that makes one ready; the events that happen while it waits are given in their
  order, and \<open>None\<close> means that it is still waiting when they end.
\<close>

datatype request_result = Completed | Aborted "scope_err option"

datatype req_event = TimerFired | ScopeEvent scope_event

fun await :: "scope \<Rightarrow> req_event list \<Rightarrow> request_result option \<times> scope" where
  "await ctx [] = (None, ctx)"
| "await ctx (TimerFired # es) = (Some Completed, ctx)"
| "await ctx (ScopeEvent ev # es) =
     (if Done (scope_step ev ctx) then (Some (Aborted (Err (scope_step ev ctx))), scope_step ev ctx)
      else await (scope_step ev ctx) es)"

definition makeRequest ::
  "bool \<Rightarrow> bool \<Rightarrow> scope \<Rightarrow> req_event list \<Rightarrow> request_result option \<times> scope" where
  "makeRequest timer_ready pick_timer ctx evs =
     (if Done ctx \<and> timer_ready
      then (Some (if pick_timer then Completed else Aborted (Err ctx)), ctx)
      else if Done ctx then (Some (Aborted (Err ctx)), ctx)
      else if timer_ready then (Some Completed, ctx)
      else await ctx evs)"

section \<open>Errors as interface values\<close>

text \<open>
  An interface value is a pair of a dynamic type and a value, and equals \<^verbatim>\<open>nil\<close> only
  when both are absent. \<^verbatim>\<open>*CustomError\<close> is the one dynamic type of the nil-interface
  program; its pointer is \<open>None\<close> when nil.
\<close>

record CustomError =
  Msg :: string

datatype dyn_type = CustomErrorPtr

record error_iface =
  itype :: "dyn_type option"
  ivalue :: "CustomError option"

definition nil_error :: error_iface where
  "nil_error = \<lparr>itype = None, ivalue = None\<rparr>"

definition as_error :: "CustomError option \<Rightarrow> error_iface" where
  "as_error p = \<lparr>itype = Some CustomErrorPtr, ivalue = p\<rparr>"

definition is_nil :: "error_iface \<Rightarrow> bool" where
  "is_nil e = (itype e = None \<and> ivalue e = None)"

definition doWork :: "bool \<Rightarrow> error_iface" where
  "doWork fail =
     (if \<not> fail then (let err = None in as_error err)
      else as_error (Some \<lparr>Msg = ''work failed''\<rparr>))"

definition doWorkFixed :: "bool \<Rightarrow> error_iface" where
  "doWorkFixed fail =
     (if \<not> fail then nil_error else as_error (Some \<lparr>Msg = ''work failed''\<rparr>))"

section \<open>Properties of channels\<close>

lemma chan_do_cap: "chan_do op c = (e, c') \<Longrightarrow> cap c' = cap c"
  by (auto simp: chan_do_def chan_send_def chan_recv_def chan_close_def
      split: chan_op.splits if_splits list.splits)

lemma chan_do_bound:
  "chan_do op c = (e, c') \<Longrightarrow> length (buf c) \<le> cap c \<Longrightarrow> length (buf c') \<le> cap c'"
  by (auto simp: chan_do_def chan_send_def chan_recv_def chan_close_def
      split: chan_op.splits if_splits list.splits)

lemma chan_do_fifo:
  "chan_do op c = (e, c') \<Longrightarrow> dequeued [e] @ buf c' = buf c @ enqueued [e]"
  by (auto simp: chan_do_def chan_send_def chan_recv_def chan_close_def
      split: chan_op.splits if_splits list.splits)

lemma run_ops_cap: "run_ops ops c = (es, c') \<Longrightarrow> cap c' = cap c"
proof (induction ops arbitrary: c es c')
  case Nil
  then show ?case by simp
next
  case (Cons op ops)
  then show ?case
    by (auto split: prod.splits dest: chan_do_cap)
qed

lemma run_ops_bound:
  "run_ops ops c = (es, c') \<Longrightarrow> length (buf c) \<le> cap c \<Longrightarrow> length (buf c') \<le> cap c'"
proof (induction ops arbitrary: c es c')
  case Nil
  then show ?case by simp
next
  case (Cons op ops)
  then show ?case
    by (auto split: prod.splits dest: chan_do_bound)
qed

lemma dequeued_Cons: "dequeued (e # es) = dequeued [e] @ dequeued es"
  by (cases e) simp_all

lemma enqueued_Cons: "enqueued (e # es) = enqueued [e] @ enqueued es"
  by (cases e) simp_all

lemma run_ops_fifo:
  "run_ops ops c = (es, c') \<Longrightarrow> dequeued es @ buf c' = buf c @ enqueued es"
proof (induction ops arbitrary: c es c')
  case Nil
  then show ?case by simp
next
  case (Cons op ops)
  obtain e c1 where d: "chan_do op c = (e, c1)" by (cases "chan_do op c")
  obtain es1 c2 where r: "run_ops ops c1 = (es1, c2)" by (cases "run_ops ops c1")
  from Cons.prems d r have es: "es = e # es1" and c': "c' = c2" by simp_all
  have "dequeued es @ buf c' = dequeued [e] @ (dequeued es1 @ buf c2)"
    using es c' dequeued_Cons [of e es1] by simp
  also have "\<dots> = dequeued [e] @ buf c1 @ enqueued es1"
    using Cons.IH [OF r] by simp
  also have "\<dots> = buf c @ enqueued [e] @ enqueued es1"
    using chan_do_fifo [OF d] by (metis append.assoc)
  finally show ?case using es enqueued_Cons [of e es1] by simp
qed

lemma run_sends:
  "\<not> closed c \<Longrightarrow> length (buf c) + length xs \<le> cap c \<Longrightarrow>
   run_ops (map Send xs) c = (map Enq xs, c\<lparr>buf := buf c @ xs\<rparr>)"
proof (induction xs arbitrary: c)
  case Nil
  then show ?case by simp
next
  case (Cons x xs)
  let ?c1 = "c\<lparr>buf := buf c @ [x]\<rparr>"
  have d: "chan_do (Send x) c = (Enq x, ?c1)"
    using Cons.prems by (simp add: chan_do_def chan_send_def)
  have "run_ops (map Send xs) ?c1 = (map Enq xs, ?c1\<lparr>buf := buf ?c1 @ xs\<rparr>)"
    using Cons.prems by (intro Cons.IH) simp_all
  then show ?case using d by simp
qed

lemma run_recvs:
  "run_ops (replicate (length (buf c)) Recv) c = (map Deq (buf c), c\<lparr>buf := []\<rparr>)"
proof (induction "buf c" arbitrary: c)
  case Nil
  then show ?case by simp
next
  case (Cons x xs)
  let ?c1 = "c\<lparr>buf := xs\<rparr>"
  have d: "chan_do Recv c = (Deq x, ?c1)"
    using Cons.hyps(2) [symmetric] by (simp add: chan_do_def chan_recv_def)
  have "run_ops (replicate (length (buf ?c1)) Recv) ?c1 = (map Deq (buf ?c1), ?c1\<lparr>buf := []\<rparr>)"
    by (rule Cons.hyps(1)) simp
  then show ?case using d Cons.hyps(2) [symmetric] by simp
qed

lemma run_ops_append:
  "run_ops (xs @ ys) c =
     (case run_ops xs c of (es, c') \<Rightarrow> (case run_ops ys c' of (fs, c'') \<Rightarrow> (es @ fs, c'')))"
  by (induction xs arbitrary: c) (auto split: prod.splits)

section \<open>Properties of the worker pool\<close>

subsection \<open>The invariant is kept by every step\<close>

lemma held_Nil [simp]: "held [] = {#}"
  by (simp add: held_def)

lemma held_snoc [simp]: "held (ws @ [w]) = held ws + wpc_ids w"
  by (simp add: held_def)

lemma held_update:
  "i < length ws \<Longrightarrow> held (ws[i := x]) + wpc_ids (ws ! i) = held ws + wpc_ids x"
proof (induction ws arbitrary: i)
  case Nil
  then show ?case by simp
next
  case (Cons w ws)
  show ?case
  proof (cases i)
    case 0
    then show ?thesis by (simp add: held_def)
  next
    case (Suc k)
    with Cons.prems have "k < length ws" by simp
    from Cons.IH [OF this] have "held (ws[k := x]) + wpc_ids (ws ! k) = held ws + wpc_ids x" .
    then show ?thesis using Suc by (simp add: held_def add.assoc add.left_commute)
  qed
qed

lemma held_update_same:
  "i < length ws \<Longrightarrow> wpc_ids (ws ! i) = wpc_ids x \<Longrightarrow> held (ws[i := x]) = held ws"
  using held_update [of i ws x] by simp

lemma held_update_take:
  "i < length ws \<Longrightarrow> wpc_ids (ws ! i) = {#} \<Longrightarrow> held (ws[i := x]) = held ws + wpc_ids x"
  using held_update [of i ws x] by simp

lemma weight_update:
  "i < length ws \<Longrightarrow>
   sum_list (map wpc_weight (ws[i := x])) + wpc_weight (ws ! i)
     = sum_list (map wpc_weight ws) + wpc_weight x"
proof (induction ws arbitrary: i)
  case Nil
  then show ?case by simp
next
  case (Cons w ws)
  show ?case
  proof (cases i)
    case 0
    then show ?thesis by simp
  next
    case (Suc k)
    with Cons.prems have "k < length ws" by simp
    from Cons.IH [OF this] show ?thesis using Suc by simp
  qed
qed

lemma ID_mkJob [simp]: "ID (mkJob j) = int j"
  by (simp add: mkJob_def)

lemma pool_inv_init: "pool_inv init_pool"
  by (simp add: pool_inv_def init_pool_def make_chan_def outs_def next_job_def job_ids_def
      main_ok_def jobs_closed_at_def)


lemma outs_mainpc [simp]: "outs (s\<lparr>mainpc := pc\<rparr>) = outs s"
  by (simp add: outs_def)

lemma outs_jobs [simp]: "outs (s\<lparr>jobs := c\<rparr>) = outs s"
  by (simp add: outs_def)

lemma outs_spawn [simp]: "outs (s\<lparr>workers := workers s @ [WRecv]\<rparr>) = outs s"
  by (simp add: outs_def)

lemma outs_collect [simp]:
  "buf (results s) = r # rest \<Longrightarrow>
   outs (s\<lparr>results := (results s)\<lparr>buf := rest\<rparr>, collected := collected s @ [r]\<rparr>) = outs s"
  by (simp add: outs_def)

lemma length_job_ids [simp]: "length (job_ids a b) = b - a"
  by (simp add: job_ids_def)

lemma inv_spawn:
  assumes "pool_inv s" "mainpc s = MSpawn w" "w \<le> numWorkers"
  shows "pool_inv (s\<lparr>workers := workers s @ [WRecv], mainpc := MSpawn (w + 1)\<rparr>)"
  using assms
  by (auto simp: pool_inv_def next_job_def main_ok_def jobs_closed_at_def)

lemma inv_spawn_exit:
  assumes "pool_inv s" "mainpc s = MSpawn w" "\<not> w \<le> numWorkers"
  shows "pool_inv (s\<lparr>mainpc := MProduce 1\<rparr>)"
  using assms
  by (auto simp: pool_inv_def next_job_def main_ok_def jobs_closed_at_def)

lemma inv_produce:
  assumes "pool_inv s" "mainpc s = MProduce j" "j \<le> numJobs"
  shows "pool_inv (s\<lparr>jobs := (jobs s)\<lparr>buf := buf (jobs s) @ [mkJob j]\<rparr>, mainpc := MProduce (j + 1)\<rparr>)"
  using assms
  by (auto simp: pool_inv_def next_job_def main_ok_def jobs_closed_at_def)

lemma inv_produce_exit:
  assumes "pool_inv s" "mainpc s = MProduce j" "\<not> j \<le> numJobs"
  shows "pool_inv (s\<lparr>mainpc := MClose\<rparr>)"
proof -
  from assms have "j = numJobs + 1" by (auto simp: pool_inv_def main_ok_def)
  with assms show ?thesis
    by (auto simp: pool_inv_def next_job_def main_ok_def jobs_closed_at_def)
qed

lemma inv_close:
  assumes "pool_inv s" "mainpc s = MClose"
  shows "pool_inv (s\<lparr>jobs := (jobs s)\<lparr>closed := True\<rparr>, mainpc := MCollect 1\<rparr>)"
  using assms
  by (auto simp: pool_inv_def next_job_def main_ok_def jobs_closed_at_def)

lemma inv_collect:
  assumes "pool_inv s" "mainpc s = MCollect i" "i \<le> numJobs" "buf (results s) = r # rest"
  shows "pool_inv (s\<lparr>results := (results s)\<lparr>buf := rest\<rparr>, collected := collected s @ [r],
                     mainpc := MCollect (i + 1)\<rparr>)"
  using assms
  by (auto simp: pool_inv_def next_job_def main_ok_def jobs_closed_at_def)

lemma inv_collect_exit:
  assumes "pool_inv s" "mainpc s = MCollect i" "\<not> i \<le> numJobs"
  shows "pool_inv (s\<lparr>mainpc := MDone\<rparr>)"
proof -
  from assms have "i = numJobs + 1" by (auto simp: pool_inv_def main_ok_def)
  with assms show ?thesis
    by (auto simp: pool_inv_def next_job_def main_ok_def jobs_closed_at_def)
qed

lemma inv_step_main:
  assumes inv: "pool_inv s" and st: "step_main s = Some s'"
  shows "pool_inv s'"
proof (cases "mainpc s")
  case (MSpawn w)
  then show ?thesis using inv st inv_spawn [OF inv MSpawn] inv_spawn_exit [OF inv MSpawn]
    by (auto simp: step_main_def split: if_splits)
next
  case (MProduce j)
  have nc: "\<not> closed (jobs s)" using inv MProduce by (simp add: pool_inv_def jobs_closed_at_def)
  show ?thesis using nc MProduce st inv_produce [OF inv MProduce] inv_produce_exit [OF inv MProduce]
    by (auto simp: step_main_def chan_send_def split: if_splits)
next
  case MClose
  have nc: "\<not> closed (jobs s)" using inv MClose by (simp add: pool_inv_def jobs_closed_at_def)
  show ?thesis using nc MClose st inv_close [OF inv MClose]
    by (auto simp: step_main_def chan_close_def split: if_splits)
next
  case (MCollect i)
  have nc: "\<not> closed (results s)" using inv by (simp add: pool_inv_def)
  show ?thesis
  proof (cases "i \<le> numJobs")
    case True
    show ?thesis
    proof (cases "buf (results s)")
      case Nil
      then show ?thesis using nc MCollect True st by (simp add: step_main_def chan_recv_def)
    next
      case (Cons r rest)
      then show ?thesis using MCollect True st inv_collect [OF inv MCollect True Cons]
        by (auto simp: step_main_def chan_recv_def)
    qed
  next
    case False
    then show ?thesis using MCollect st inv_collect_exit [OF inv MCollect False]
      by (auto simp: step_main_def)
  qed
next
  case MDone
  then show ?thesis using st by (simp add: step_main_def)
qed


lemma outs_worker_same:
  "i < length (workers s) \<Longrightarrow> wpc_ids (workers s ! i) = wpc_ids x \<Longrightarrow>
   outs (s\<lparr>workers := (workers s)[i := x]\<rparr>) = outs s"
  by (simp add: outs_def held_update_same)

lemma outs_worker_send:
  "i < length (workers s) \<Longrightarrow> workers s ! i = WSend res \<Longrightarrow>
   outs (s\<lparr>results := (results s)\<lparr>buf := buf (results s) @ [res]\<rparr>,
           workers := (workers s)[i := WRecv]\<rparr>) = outs s"
  using held_update [of i "workers s" WRecv]
  by (simp add: outs_def)

lemma main_ok_cong:
  "mainpc s' = mainpc s \<Longrightarrow> length (workers s') = length (workers s) \<Longrightarrow>
   collected s' = collected s \<Longrightarrow> main_ok s' = main_ok s"
  by (simp add: main_ok_def split: mpc.splits)

lemma WExit_update:
  "WExit \<in> set (ws[i := x]) \<Longrightarrow> x \<noteq> WExit \<Longrightarrow> WExit \<in> set ws"
  using set_update_subset_insert [of ws i x] by auto

lemma pool_inv_frame:
  assumes inv: "pool_inv s"
    and "crashed s' = crashed s" "cap (jobs s') = cap (jobs s)" "cap (results s') = cap (results s)"
    and "closed (results s') = closed (results s)" "closed (jobs s') = closed (jobs s)"
    and "mainpc s' = mainpc s" "length (workers s') = length (workers s)"
    and "collected s' = collected s" "outs s' = outs s" "buf (jobs s') = buf (jobs s)"
    and "WExit \<in> set (workers s') \<Longrightarrow> closed (jobs s) \<and> buf (jobs s) = []"
  shows "pool_inv s'"
proof -
  have m: "main_ok s' = main_ok s" using assms by (intro main_ok_cong) simp_all
  have nx: "next_job s' = next_job s" using assms by (simp add: next_job_def)
  show ?thesis
    using assms unfolding pool_inv_def m nx by simp
qed

lemma pool_inv_exit:
  "pool_inv s \<Longrightarrow> WExit \<in> set (workers s) \<Longrightarrow> closed (jobs s) \<and> buf (jobs s) = []"
  unfolding pool_inv_def by blast

lemma inv_recv_job:
  assumes inv: "pool_inv s" and i: "i < length (workers s)" and w: "workers s ! i = WRecv"
    and b: "buf (jobs s) = job # rest"
  shows "pool_inv (s\<lparr>jobs := (jobs s)\<lparr>buf := rest\<rparr>, workers := (workers s)[i := WWork job]\<rparr>)"
    (is "pool_inv ?s'")
proof -
  let ?k = "size (outs s)"
  from inv have e: "buf (jobs s) = map mkJob [?k + 1 ..< next_job s]"
    and f: "outs s = mset (job_ids 1 (?k + 1))"
    by (simp_all add: pool_inv_def)
  from e b have lt: "?k + 1 < next_job s" by (cases "?k + 1 < next_job s") simp_all
  from e b lt have job: "job = mkJob (?k + 1)" and rest: "rest = map mkJob [?k + 2 ..< next_job s]"
    by (simp_all add: upt_conv_Cons)
  have "outs ?s' = held ((workers s)[i := WWork job]) + mset (map JobID (buf (results s)))
                    + mset (map JobID (collected s))"
    by (simp add: outs_def)
  also have "\<dots> = outs s + {#ID job#}"
    using i w by (simp add: outs_def held_update_take)
  finally have o: "outs ?s' = outs s + {#int (?k + 1)#}" using job by simp
  have sz: "size (outs ?s') = ?k + 1" using o by simp
  have "mset (job_ids 1 (?k + 2)) = mset (job_ids 1 (?k + 1)) + {#int (?k + 1)#}"
    by (simp add: job_ids_def)
  with o f have f': "outs ?s' = mset (job_ids 1 (?k + 2))" by simp
  have nx: "next_job ?s' = next_job s" by (simp add: next_job_def)
  have ex: "WExit \<notin> set ((workers s)[i := WWork job])"
  proof
    assume "WExit \<in> set ((workers s)[i := WWork job])"
    then have "WExit \<in> set (workers s)" by (rule WExit_update) simp
    with inv b show False using pool_inv_exit [of s] by simp
  qed
  have m: "main_ok ?s' = main_ok s" by (intro main_ok_cong) simp_all
  show ?thesis
    unfolding pool_inv_def sz nx m
  proof (intro conjI)
    show "?k + 1 < next_job s" by (rule lt)
    show "buf (jobs ?s') = map mkJob [?k + 1 + 1..<next_job s]" using rest by simp
    show "outs ?s' = mset (job_ids 1 (?k + 1 + 1))" using f' by simp
    show "WExit \<in> set (workers ?s') \<longrightarrow> closed (jobs ?s') \<and> buf (jobs ?s') = []"
      using ex by simp
  qed (use inv in \<open>simp_all add: pool_inv_def\<close>)
qed

lemma inv_recv_closed:
  assumes inv: "pool_inv s" and i: "i < length (workers s)" and w: "workers s ! i = WRecv"
    and b: "buf (jobs s) = []" and c: "closed (jobs s)"
  shows "pool_inv (s\<lparr>workers := (workers s)[i := WExit]\<rparr>)" (is "pool_inv ?s'")
proof (rule pool_inv_frame [OF inv])
  show "outs ?s' = outs s" using outs_worker_same [OF i, of WExit] w by simp
qed (use b c in simp_all)

lemma inv_work:
  assumes inv: "pool_inv s" and i: "i < length (workers s)" and w: "workers s ! i = WWork job"
  shows "pool_inv (s\<lparr>workers := (workers s)[i := WSend \<lparr>JobID = ID job, Status = ''Success''\<rparr>]\<rparr>)"
    (is "pool_inv ?s'")
proof (rule pool_inv_frame [OF inv])
  show "outs ?s' = outs s"
    using outs_worker_same [OF i, of "WSend \<lparr>JobID = ID job, Status = ''Success''\<rparr>"] w by simp
  show "closed (jobs s) \<and> buf (jobs s) = []" if "WExit \<in> set (workers ?s')"
  proof -
    from that have "WExit \<in> set (workers s)" using WExit_update [of "workers s" i] by simp
    with inv show ?thesis by (rule pool_inv_exit)
  qed
qed simp_all

lemma inv_send:
  assumes inv: "pool_inv s" and i: "i < length (workers s)" and w: "workers s ! i = WSend res"
  shows "pool_inv (s\<lparr>results := (results s)\<lparr>buf := buf (results s) @ [res]\<rparr>,
                     workers := (workers s)[i := WRecv]\<rparr>)"
    (is "pool_inv ?s'")
proof (rule pool_inv_frame [OF inv])
  show "outs ?s' = outs s" using outs_worker_send [OF i w] .
  show "closed (jobs s) \<and> buf (jobs s) = []" if "WExit \<in> set (workers ?s')"
  proof -
    from that have "WExit \<in> set (workers s)" using WExit_update [of "workers s" i] by simp
    with inv show ?thesis by (rule pool_inv_exit)
  qed
qed simp_all

lemma inv_step_worker:
  assumes inv: "pool_inv s" and st: "step_worker i s = Some s'"
  shows "pool_inv s'"
proof -
  from st have i: "i < length (workers s)" by (simp add: step_worker_def split: if_splits)
  have nc: "\<not> closed (results s)" using inv by (simp add: pool_inv_def)
  show ?thesis
  proof (cases "workers s ! i")
    case WRecv
    show ?thesis
    proof (cases "buf (jobs s)")
      case Nil
      with st i WRecv have c: "closed (jobs s)" and s': "s' = s\<lparr>workers := (workers s)[i := WExit]\<rparr>"
        by (auto simp: step_worker_def chan_recv_def split: if_splits)
      show ?thesis unfolding s' by (rule inv_recv_closed [OF inv i WRecv Nil c])
    next
      case (Cons job rest)
      with st i WRecv
      have s': "s' = s\<lparr>jobs := (jobs s)\<lparr>buf := rest\<rparr>, workers := (workers s)[i := WWork job]\<rparr>"
        by (auto simp: step_worker_def chan_recv_def)
      show ?thesis unfolding s' by (rule inv_recv_job [OF inv i WRecv Cons])
    qed
  next
    case (WWork job)
    with st i
    have s': "s' = s\<lparr>workers := (workers s)[i := WSend \<lparr>JobID = ID job, Status = ''Success''\<rparr>]\<rparr>"
      by (auto simp: step_worker_def)
    show ?thesis unfolding s' by (rule inv_work [OF inv i WWork])
  next
    case (WSend res)
    with st i nc
    have s': "s' = s\<lparr>results := (results s)\<lparr>buf := buf (results s) @ [res]\<rparr>,
                       workers := (workers s)[i := WRecv]\<rparr>"
      by (auto simp: step_worker_def chan_send_def split: if_splits)
    show ?thesis unfolding s' by (rule inv_send [OF inv i WSend])
  next
    case WExit
    with st i show ?thesis by (simp add: step_worker_def)
  qed
qed

lemma inv_step:
  assumes inv: "pool_inv s" and st: "step t s = Some s'"
  shows "pool_inv s'"
proof (cases t)
  case Main
  with st have "step_main s = Some s'" by (simp add: step_def split: if_splits)
  then show ?thesis by (rule inv_step_main [OF inv])
next
  case (Worker i)
  with st have "step_worker i s = Some s'" by (simp add: step_def split: if_splits)
  then show ?thesis by (rule inv_step_worker [OF inv])
qed

lemma reachable_inv: "reachable s \<Longrightarrow> pool_inv s"
  by (induction rule: reachable.induct) (auto intro: pool_inv_init inv_step)

subsection \<open>Every step reduces the measure\<close>

lemma weight_update_lt:
  assumes "i < length ws" "wpc_weight x < wpc_weight (ws ! i)"
  shows "sum_list (map wpc_weight (ws[i := x])) < sum_list (map wpc_weight ws)"
  using weight_update [OF assms(1), of x] assms(2) by linarith

lemma weight_update_recv:
  assumes "i < length ws" "ws ! i = WRecv"
  shows "sum_list (map wpc_weight (ws[i := WWork job])) = sum_list (map wpc_weight ws) + 2"
  using weight_update [OF assms(1), of "WWork job"] assms(2) by simp

lemma measure_step_main:
  assumes "step_main s = Some s'" "crashed s = None"
  shows "pool_measure s' < pool_measure s"
  using assms
  by (cases "mainpc s")
     (auto simp: step_main_def pool_measure_def crash_def chan_send_def chan_recv_def
        chan_close_def split: if_splits list.splits)

lemma measure_step_worker:
  assumes st: "step_worker i s = Some s'" and nc: "crashed s = None"
  shows "pool_measure s' < pool_measure s"
proof -
  from st have i: "i < length (workers s)" by (simp add: step_worker_def split: if_splits)
  show ?thesis
  proof (cases "workers s ! i")
    case WRecv
    show ?thesis
    proof (cases "buf (jobs s)")
      case Nil
      with st i WRecv have s': "s' = s\<lparr>workers := (workers s)[i := WExit]\<rparr>"
        by (auto simp: step_worker_def chan_recv_def split: if_splits)
      show ?thesis unfolding s' using nc weight_update_lt [OF i, of WExit] WRecv
        by (simp add: pool_measure_def)
    next
      case (Cons job rest)
      with st i WRecv
      have s': "s' = s\<lparr>jobs := (jobs s)\<lparr>buf := rest\<rparr>, workers := (workers s)[i := WWork job]\<rparr>"
        by (auto simp: step_worker_def chan_recv_def)
      show ?thesis unfolding s' using nc weight_update_recv [OF i WRecv, of job] Cons
        by (simp add: pool_measure_def)
    qed
  next
    case (WWork job)
    with st i
    have s': "s' = s\<lparr>workers := (workers s)[i := WSend \<lparr>JobID = ID job, Status = ''Success''\<rparr>]\<rparr>"
      by (auto simp: step_worker_def)
    show ?thesis unfolding s'
      using nc weight_update_lt [OF i, of "WSend \<lparr>JobID = ID job, Status = ''Success''\<rparr>"] WWork
      by (simp add: pool_measure_def)
  next
    case (WSend res)
    show ?thesis
    proof (cases "chan_send res (results s)")
      case (Completes c)
      with st i WSend have s': "s' = s\<lparr>results := c, workers := (workers s)[i := WRecv]\<rparr>"
        by (auto simp: step_worker_def)
      show ?thesis unfolding s' using nc weight_update_lt [OF i, of WRecv] WSend
        by (simp add: pool_measure_def)
    next
      case Blocks
      with st i WSend show ?thesis by (simp add: step_worker_def)
    next
      case Panics
      with st i WSend have s': "s' = crash ''send on closed channel'' s"
        by (auto simp: step_worker_def)
      show ?thesis unfolding s' using nc by (simp add: pool_measure_def crash_def)
    qed
  next
    case WExit
    with st i show ?thesis by (simp add: step_worker_def)
  qed
qed

lemma measure_step:
  assumes st: "step t s = Some s'"
  shows "pool_measure s' < pool_measure s"
proof -
  from st have nc: "crashed s = None" by (simp add: step_def split: if_splits)
  show ?thesis
  proof (cases t)
    case Main
    with st have "step_main s = Some s'" by (simp add: step_def split: if_splits)
    then show ?thesis using nc by (rule measure_step_main)
  next
    case (Worker i)
    with st have "step_worker i s = Some s'" by (simp add: step_def split: if_splits)
    then show ?thesis using nc by (rule measure_step_worker)
  qed
qed

lemma exec_reachable: "reachable s \<Longrightarrow> reachable (exec ts s)"
proof (induction ts arbitrary: s)
  case Nil
  then show ?case by simp
next
  case (Cons t ts)
  show ?case
  proof (cases "step t s")
    case None
    then show ?thesis using Cons by simp
  next
    case (Some s')
    with Cons.prems have "reachable s'" by (auto intro: reach_step)
    then show ?thesis using Some Cons.IH by simp
  qed
qed

subsection \<open>Progress and the final state\<close>

lemma numWorkers_pos: "0 < numWorkers"
  by (simp add: numWorkers_def)

lemma numJobs_pos: "0 < numJobs"
  by (simp add: numJobs_def)

lemma held_all_exit: "\<forall>w \<in> set ws. w = WExit \<Longrightarrow> held ws = {#}"
  by (induction ws) (simp_all add: held_def)

lemma worker_can_step:
  assumes i: "i < length (workers s)" and ne: "workers s ! i \<noteq> WExit"
    and cj: "closed (jobs s)" and r: "buf (results s) = []" "\<not> closed (results s)"
      "0 < cap (results s)"
  shows "\<exists>s'. step_worker i s = Some s'"
proof (cases "workers s ! i")
  case WRecv
  then show ?thesis using i cj
    by (cases "buf (jobs s)") (simp_all add: step_worker_def chan_recv_def)
next
  case (WWork job)
  then show ?thesis using i by (simp add: step_worker_def)
next
  case (WSend res)
  then show ?thesis using i r by (simp add: step_worker_def chan_send_def)
next
  case WExit
  with ne show ?thesis by simp
qed

lemma collect_progress:
  assumes inv: "pool_inv s" and pc: "mainpc s = MCollect i" and le: "i \<le> numJobs"
    and r: "buf (results s) = []"
  shows "\<exists>k s'. step_worker k s = Some s'"
proof -
  from inv pc have cj: "closed (jobs s)" and nr: "\<not> closed (results s)"
    and capr: "cap (results s) = numJobs"
    and len: "length (workers s) = numWorkers" and lc: "length (collected s) = i - 1"
    and i1: "1 \<le> i"
    and e: "buf (jobs s) = map mkJob [size (outs s) + 1 ..< next_job s]"
    by (simp_all add: pool_inv_def jobs_closed_at_def main_ok_def)
  have nx: "next_job s = numJobs + 1" using pc by (simp add: next_job_def)
  have "\<exists>k < length (workers s). workers s ! k \<noteq> WExit"
  proof (rule ccontr)
    assume "\<not> ?thesis"
    then have all: "\<forall>w \<in> set (workers s). w = WExit" by (auto simp: in_set_conv_nth)
    then have h: "held (workers s) = {#}" by (rule held_all_exit)
    from len numWorkers_pos have "workers s \<noteq> []" by auto
    then obtain w where "w \<in> set (workers s)" by (cases "workers s") auto
    with all have "WExit \<in> set (workers s)" by auto
    with inv have "buf (jobs s) = []" using pool_inv_exit by blast
    moreover have "length (buf (jobs s)) = next_job s - (size (outs s) + 1)"
      unfolding e by simp
    ultimately have "numJobs \<le> size (outs s)" using nx by simp
    moreover have "size (outs s) = i - 1" using h r lc by (simp add: outs_def)
    ultimately show False using le i1 by simp
  qed
  then obtain k where k: "k < length (workers s)" "workers s ! k \<noteq> WExit" by blast
  from worker_can_step [OF k cj r nr] capr numJobs_pos show ?thesis by auto
qed

lemma main_progress:
  assumes inv: "pool_inv s" and pc: "\<forall>i. mainpc s = MCollect i \<longrightarrow> \<not> i \<le> numJobs \<or> buf (results s) \<noteq> []"
    and nd: "mainpc s \<noteq> MDone"
  shows "\<exists>s'. step_main s = Some s'"
proof (cases "mainpc s")
  case (MSpawn w)
  then show ?thesis by (simp add: step_main_def)
next
  case (MProduce j)
  show ?thesis
  proof (cases "j \<le> numJobs")
    case True
    from inv MProduce have nc: "\<not> closed (jobs s)" and capj: "cap (jobs s) = numJobs"
      and e: "buf (jobs s) = map mkJob [size (outs s) + 1 ..< next_job s]"
      by (simp_all add: pool_inv_def jobs_closed_at_def)
    have "length (buf (jobs s)) = next_job s - (size (outs s) + 1)"
      unfolding e by simp
    then have "length (buf (jobs s)) < numJobs"
      using MProduce True numJobs_pos by (simp add: next_job_def)
    then show ?thesis using MProduce True nc capj by (simp add: step_main_def chan_send_def)
  next
    case False
    then show ?thesis using MProduce by (simp add: step_main_def)
  qed
next
  case MClose
  from inv MClose have "\<not> closed (jobs s)" by (simp add: pool_inv_def jobs_closed_at_def)
  then show ?thesis using MClose by (simp add: step_main_def chan_close_def)
next
  case (MCollect i)
  show ?thesis
  proof (cases "i \<le> numJobs")
    case True
    with pc MCollect obtain r rest where "buf (results s) = r # rest"
      by (cases "buf (results s)") auto
    then show ?thesis using MCollect True by (simp add: step_main_def chan_recv_def)
  next
    case False
    then show ?thesis using MCollect by (simp add: step_main_def)
  qed
next
  case MDone
  with nd show ?thesis by simp
qed

lemma progress:
  assumes inv: "pool_inv s" and nd: "mainpc s \<noteq> MDone"
  shows "\<exists>t s'. step t s = Some s'"
proof -
  from inv have nc: "crashed s = None" by (simp add: pool_inv_def)
  show ?thesis
  proof (cases "\<exists>i. mainpc s = MCollect i \<and> i \<le> numJobs \<and> buf (results s) = []")
    case True
    then obtain i where "mainpc s = MCollect i" "i \<le> numJobs" "buf (results s) = []" by blast
    from collect_progress [OF inv this] obtain k s' where "step_worker k s = Some s'"
      by blast
    then have "step (Worker k) s = Some s'" using nc nd by (simp add: step_def)
    then show ?thesis by blast
  next
    case False
    then have "\<forall>i. mainpc s = MCollect i \<longrightarrow> \<not> i \<le> numJobs \<or> buf (results s) \<noteq> []" by blast
    from main_progress [OF inv this nd] obtain s' where "step_main s = Some s'" by blast
    then have "step Main s = Some s'" using nc nd by (simp add: step_def)
    then show ?thesis by blast
  qed
qed

lemma conservation:
  assumes inv: "pool_inv s"
  shows "mset (map ID (buf (jobs s))) + outs s = mset (job_ids 1 (next_job s))"
proof -
  let ?k = "size (outs s)"
  from inv have lt: "?k < next_job s"
    and e: "buf (jobs s) = map mkJob [?k + 1 ..< next_job s]"
    and f: "outs s = mset (job_ids 1 (?k + 1))"
    by (simp_all add: pool_inv_def)
  have "map ID (buf (jobs s)) = job_ids (?k + 1) (next_job s)"
    unfolding e by (simp add: job_ids_def comp_def)
  moreover have "job_ids 1 (next_job s) = job_ids 1 (?k + 1) @ job_ids (?k + 1) (next_job s)"
  proof -
    from lt obtain d where d: "next_job s = (?k + 1) + d"
      by (metis Suc_eq_plus1 less_iff_Suc_add add_Suc)
    have "[1..<(?k + 1) + d] = [1..<?k + 1] @ [?k + 1..<(?k + 1) + d]"
      by (rule upt_add_eq_append) simp
    then show ?thesis unfolding job_ids_def d by (simp only: map_append)
  qed
  ultimately show ?thesis using f by (simp add: union_commute)
qed

lemma all_collected:
  assumes inv: "pool_inv s" and pc: "mainpc s = MDone"
  shows "mset (map JobID (collected s)) = mset (job_ids 1 (numJobs + 1))"
proof -
  let ?k = "size (outs s)"
  from inv pc have lt: "?k < numJobs + 1" and f: "outs s = mset (job_ids 1 (?k + 1))"
    and lc: "length (collected s) = numJobs"
    by (simp_all add: pool_inv_def next_job_def main_ok_def)
  have "?k = size (held (workers s)) + length (buf (results s)) + numJobs"
    using lc by (simp add: outs_def)
  with lt have k: "?k = numJobs" and h: "held (workers s) = {#}" and r: "buf (results s) = []"
    by simp_all
  have "outs s = mset (map JobID (collected s))" using h r by (simp add: outs_def)
  with f k show ?thesis by simp
qed

lemma job_ids_count:
  "1 \<le> j \<Longrightarrow> j \<le> n \<Longrightarrow> count (mset (job_ids 1 (n + 1))) (int j) = 1"
proof -
  assume "1 \<le> j" "j \<le> n"
  then have "int j \<in> set (job_ids 1 (n + 1))" by (auto simp: job_ids_def)
  moreover have "distinct (job_ids 1 (n + 1))" by (simp add: job_ids_def distinct_map)
  ultimately show ?thesis by (simp add: distinct_count_atmost_1)
qed

lemma count_results:
  "count (mset (map JobID rs)) k = length (filter (\<lambda>r. JobID r = k) rs)"
  by (induction rs) auto

section \<open>The claims about the bounded queue\<close>

lemma run_recvs_closed:
  assumes "closed c"
  shows "run_ops (replicate (length (buf c) + 1) Recv) c
           = (map Deq (buf c) @ [DeqClosed], c\<lparr>buf := []\<rparr>)"
proof -
  have "replicate (length (buf c) + 1) Recv = replicate (length (buf c)) Recv @ [Recv :: 'a chan_op]"
    by (simp add: replicate_append_same)
  moreover have "chan_do Recv (c\<lparr>buf := []\<rparr>) = (DeqClosed, c\<lparr>buf := []\<rparr>)"
    using assms by (simp add: chan_do_def chan_recv_def)
  ultimately show ?thesis
    by (simp add: run_ops_append run_recvs)
qed

lemma pool_jobs_bound:
  assumes "pool_inv s"
  shows "length (buf (jobs s)) \<le> numJobs"
proof -
  from assms have e: "buf (jobs s) = map mkJob [size (outs s) + 1 ..< next_job s]"
    and m: "main_ok s"
    by (simp_all add: pool_inv_def)
  have "next_job s \<le> numJobs + 1"
    using m by (cases "mainpc s") (simp_all add: next_job_def main_ok_def)
  moreover have "length (buf (jobs s)) = next_job s - (size (outs s) + 1)"
    unfolding e by simp
  ultimately show ?thesis by simp
qed

text \<open>
  Claim C2 (capacity invariant). Whatever sequence of sends, receives and closes is
  attempted on a channel made with capacity \<open>n\<close>, the capacity stays \<open>n\<close> and the
  number of resident values never exceeds it; a send onto the full channel does not
  complete (it blocks, or panics if the channel was closed), and completes once a receive
  has freed a slot. In the worker pool the jobs channel has capacity \<open>numJobs\<close> and
  never holds more than \<open>numJobs\<close> jobs in any state the program reaches.
\<close>
theorem capacity_invariant:
  "(run_ops ops (make_chan n) = (es, c) \<longrightarrow>
      cap c = n \<and> length (buf c) \<le> n
      \<and> (length (buf c) = n \<longrightarrow>
           (chan_send v c = Blocks \<or> chan_send v c = Panics)
           \<and> (\<forall>x c1. \<not> closed c \<and> chan_recv c = Completes (Some x, c1)
                 \<longrightarrow> chan_send v c1 = Completes (c1\<lparr>buf := buf c1 @ [v]\<rparr>))))
   \<and> (reachable s \<longrightarrow>
        cap (jobs s) = numJobs \<and> length (buf (jobs s)) \<le> numJobs)"
proof (intro conjI impI)
  assume r: "run_ops ops (make_chan n) = (es, c)"
  show capc: "cap c = n" using run_ops_cap [OF r] by (simp add: make_chan_def)
  show "length (buf c) \<le> n" using run_ops_bound [OF r] capc by (simp add: make_chan_def)
  assume full: "length (buf c) = n"
  show "chan_send v c = Blocks \<or> chan_send v c = Panics"
    using full capc by (simp add: chan_send_def)
  show "\<forall>x c1. \<not> closed c \<and> chan_recv c = Completes (Some x, c1)
          \<longrightarrow> chan_send v c1 = Completes (c1\<lparr>buf := buf c1 @ [v]\<rparr>)"
    using full capc by (auto simp: chan_recv_def chan_send_def split: list.splits)
next
  assume "reachable s"
  then have inv: "pool_inv s" by (rule reachable_inv)
  then show "cap (jobs s) = numJobs" by (simp add: pool_inv_def)
  from inv show "length (buf (jobs s)) \<le> numJobs" by (rule pool_jobs_bound)
qed

theorem capacity_invariant_witness:
  "run_ops [Send ''Job 1'', Send ''Job 2''] (make_chan 2)
     = ([Enq ''Job 1'', Enq ''Job 2''], \<lparr>buf = [''Job 1'', ''Job 2''], cap = 2, closed = False\<rparr>)
   \<and> chan_send ''Job 3'' \<lparr>buf = [''Job 1'', ''Job 2''], cap = 2, closed = False\<rparr> = Blocks
   \<and> chan_recv \<lparr>buf = [''Job 1'', ''Job 2''], cap = 2, closed = False\<rparr>
       = Completes (Some ''Job 1'', \<lparr>buf = [''Job 2''], cap = 2, closed = False\<rparr>)
   \<and> chan_send ''Job 3'' \<lparr>buf = [''Job 2''], cap = 2, closed = False\<rparr>
       = Completes \<lparr>buf = [''Job 2'', ''Job 3''], cap = 2, closed = False\<rparr>
   \<and> reachable (exec (replicate 15 Main) init_pool)
   \<and> length (buf (jobs (exec (replicate 15 Main) init_pool))) = 10
   \<and> cap (jobs (exec (replicate 15 Main) init_pool)) = numJobs"
proof -
  let ?q = "\<lparr>buf = [''Job 1'', ''Job 2''], cap = 2, closed = False\<rparr>"
  have r: "run_ops [Send ''Job 1'', Send ''Job 2''] (make_chan 2)
             = ([Enq ''Job 1'', Enq ''Job 2''], ?q)"
    by (simp add: chan_do_def chan_send_def make_chan_def)
  have v: "chan_recv ?q = Completes (Some ''Job 1'', \<lparr>buf = [''Job 2''], cap = 2, closed = False\<rparr>)"
    by (simp add: chan_recv_def)
  have p: "reachable (exec (replicate 15 Main) init_pool)"
    by (rule exec_reachable [OF reach_init])
  have l: "length (buf (jobs (exec (replicate 15 Main) init_pool))) = 10"
    by code_simp
  from capacity_invariant [of "[Send ''Job 1'', Send ''Job 2'']" 2 "[Enq ''Job 1'', Enq ''Job 2'']" ?q
      "''Job 3''" "exec (replicate 15 Main) init_pool"] r v p l
  show ?thesis by (auto simp: chan_send_def)
qed

text \<open>
  Claim C3 (FIFO invariant). For every sequence of operations on a channel, the values
  dequeued so far followed by the values still resident are the values enqueued, in the
  order of their sends; in particular values sent without an intervening receive are
  received in exactly the order sent. In the worker pool the jobs channel always holds a
  run of consecutive job identifiers in increasing order, and the jobs that have left it
  are exactly the ones sent before them.
\<close>
theorem fifo_order:
  "(run_ops ops (make_chan n) = (es, c) \<longrightarrow> dequeued es @ buf c = enqueued es)
   \<and> (length xs \<le> m \<longrightarrow>
        run_ops (map Send xs @ replicate (length xs) Recv) (make_chan m)
          = (map Enq xs @ map Deq xs, make_chan m))
   \<and> (reachable s \<longrightarrow>
        map ID (buf (jobs s)) = job_ids (size (outs s) + 1) (next_job s)
        \<and> outs s = mset (job_ids 1 (size (outs s) + 1)))"
proof (intro conjI impI)
  assume "run_ops ops (make_chan n) = (es, c)"
  from run_ops_fifo [OF this] show "dequeued es @ buf c = enqueued es"
    by (simp add: make_chan_def)
next
  assume len: "length xs \<le> m"
  let ?c = "make_chan m :: 'b chan"
  let ?full = "?c\<lparr>buf := buf ?c @ xs\<rparr>"
  have s: "run_ops (map Send xs) ?c = (map Enq xs, ?full)"
    using len by (intro run_sends) (simp_all add: make_chan_def)
  have "run_ops (replicate (length (buf ?full)) Recv) ?full = (map Deq (buf ?full), ?full\<lparr>buf := []\<rparr>)"
    by (rule run_recvs)
  then have r: "run_ops (replicate (length xs) Recv) ?full = (map Deq xs, ?c)"
    by (simp add: make_chan_def)
  show "run_ops (map Send xs @ replicate (length xs) Recv) ?c = (map Enq xs @ map Deq xs, ?c)"
    by (simp add: run_ops_append s r)
next
  assume "reachable s"
  then have inv: "pool_inv s" by (rule reachable_inv)
  then have "buf (jobs s) = map mkJob [size (outs s) + 1 ..< next_job s]"
    by (simp add: pool_inv_def)
  then show "map ID (buf (jobs s)) = job_ids (size (outs s) + 1) (next_job s)"
    by (simp add: job_ids_def comp_def)
  from inv show "outs s = mset (job_ids 1 (size (outs s) + 1))"
    by (simp add: pool_inv_def)
qed

theorem fifo_order_witness:
  "run_ops [Send (1::int), Send 2, Recv, Send 3, Recv] (make_chan 2)
      = ([Enq 1, Enq 2, Deq 1, Enq 3, Deq 2], \<lparr>buf = [3], cap = 2, closed = False\<rparr>)
   \<and> dequeued [Enq (1::int), Enq 2, Deq 1, Enq 3, Deq 2] @ [3] = enqueued [Enq 1, Enq 2, Deq 1, Enq 3, Deq 2]
   \<and> run_ops (map Send [mkJob 1, mkJob 2, mkJob 3] @ replicate (length [mkJob 1, mkJob 2, mkJob 3]) Recv)
        (make_chan 10)
      = (map Enq [mkJob 1, mkJob 2, mkJob 3] @ map Deq [mkJob 1, mkJob 2, mkJob 3], make_chan 10)
   \<and> reachable (exec (replicate 7 Main @ [Worker 0]) init_pool)
   \<and> map ID (buf (jobs (exec (replicate 7 Main @ [Worker 0]) init_pool))) = [2, 3]"
proof -
  let ?s = "exec (replicate 7 Main @ [Worker 0]) init_pool"
  let ?es = "[Enq (1::int), Enq 2, Deq 1, Enq 3, Deq 2]"
  let ?c = "\<lparr>buf = [3::int], cap = 2, closed = False\<rparr>"
  let ?xs = "[mkJob 1, mkJob 2, mkJob 3]"
  note T = fifo_order [of "[Send (1::int), Send 2, Recv, Send 3, Recv]" 2 ?es ?c ?xs 10 ?s]
  have r: "run_ops [Send (1::int), Send 2, Recv, Send 3, Recv] (make_chan 2) = (?es, ?c)"
    by (simp add: chan_do_def chan_send_def chan_recv_def make_chan_def)
  from T r have "dequeued ?es @ buf ?c = enqueued ?es" by blast
  then have a: "dequeued ?es @ [3] = enqueued ?es" by simp
  have l: "length ?xs \<le> 10" by simp
  from T l have b: "run_ops (map Send ?xs @ replicate (length ?xs) Recv) (make_chan 10)
      = (map Enq ?xs @ map Deq ?xs, make_chan 10)" by blast
  have p: "reachable ?s" by (rule exec_reachable [OF reach_init])
  have o: "job_ids (size (outs ?s) + 1) (next_job ?s) = [2, 3]" by code_simp
  from T p have "map ID (buf (jobs ?s)) = job_ids (size (outs ?s) + 1) (next_job ?s)" by blast
  with o have d: "map ID (buf (jobs ?s)) = [2, 3]" by simp
  from r a b p d show ?thesis by blast
qed

subsection \<open>More facts about the pool\<close>

lemma held_empty_idle: "held ws = {#} \<Longrightarrow> \<forall>w \<in> set ws. w = WRecv \<or> w = WExit"
proof (induction ws)
  case Nil
  then show ?case by simp
next
  case (Cons w ws)
  from Cons.prems have "wpc_ids w = {#}" and "held ws = {#}" by (simp_all add: held_def)
  moreover from \<open>wpc_ids w = {#}\<close> have "w = WRecv \<or> w = WExit" by (cases w) simp_all
  ultimately show ?case using Cons.IH by simp
qed

lemma done_drained:
  assumes inv: "pool_inv s" and pc: "mainpc s = MDone"
  shows "buf (jobs s) = [] \<and> buf (results s) = [] \<and> held (workers s) = {#}"
proof -
  let ?k = "size (outs s)"
  from inv pc have lt: "?k < numJobs + 1"
    and e: "buf (jobs s) = map mkJob [?k + 1 ..< numJobs + 1]"
    and lc: "length (collected s) = numJobs"
    by (simp_all add: pool_inv_def next_job_def main_ok_def)
  have "?k = size (held (workers s)) + length (buf (results s)) + numJobs"
    using lc by (simp add: outs_def)
  with lt have k: "?k = numJobs" and h: "held (workers s) = {#}" and r: "buf (results s) = []"
    by simp_all
  from e k have "buf (jobs s) = []" by simp
  with h r show ?thesis by simp
qed





section \<open>The claims about the worker pool\<close>

text \<open>
  Claim C1 (exactly-once execution). In every state the worker pool reaches, each job
  sent so far is in exactly one place: in the jobs channel, with a worker, or accounted
  for by one result (in the results channel or collected). Every step reduces the measure
  of the work left, so every run is finite, and some goroutine can move as long as
  \<^verbatim>\<open>main\<close> has not returned; so every run ends with \<^verbatim>\<open>main\<close> returning, and then it
  has collected \<open>numJobs\<close> results, exactly one for the identifier of each job.
\<close>
theorem exactly_once_execution:
  assumes "reachable s"
  shows "mset (map ID (buf (jobs s))) + outs s = mset (job_ids 1 (next_job s))
       \<and> (\<forall>t s'. step t s = Some s' \<longrightarrow> pool_measure s' < pool_measure s)
       \<and> (mainpc s \<noteq> MDone \<longrightarrow> (\<exists>t s'. step t s = Some s'))
       \<and> (mainpc s = MDone \<longrightarrow>
            length (collected s) = numJobs
            \<and> (\<forall>j. 1 \<le> j \<and> j \<le> numJobs \<longrightarrow>
                  length (filter (\<lambda>r. JobID r = ID (mkJob j)) (collected s)) = 1))"
proof -
  from assms have inv: "pool_inv s" by (rule reachable_inv)
  have a: "mset (map ID (buf (jobs s))) + outs s = mset (job_ids 1 (next_job s))"
    using inv by (rule conservation)
  have b: "\<forall>t s'. step t s = Some s' \<longrightarrow> pool_measure s' < pool_measure s"
    using measure_step by blast
  have c: "mainpc s \<noteq> MDone \<longrightarrow> (\<exists>t s'. step t s = Some s')"
    using progress [OF inv] by blast
  have d: "length (collected s) = numJobs
      \<and> (\<forall>j. 1 \<le> j \<and> j \<le> numJobs \<longrightarrow>
            length (filter (\<lambda>r. JobID r = ID (mkJob j)) (collected s)) = 1)"
    if pc: "mainpc s = MDone"
  proof (intro conjI allI impI)
    show "length (collected s) = numJobs" using inv pc by (simp add: pool_inv_def main_ok_def)
    fix j assume j: "1 \<le> j \<and> j \<le> numJobs"
    have "length (filter (\<lambda>r. JobID r = int j) (collected s))
            = count (mset (map JobID (collected s))) (int j)"
      by (rule count_results [symmetric])
    also have "\<dots> = count (mset (job_ids 1 (numJobs + 1))) (int j)"
      using all_collected [OF inv pc] by simp
    also have "\<dots> = 1" using j by (intro job_ids_count) simp_all
    finally show "length (filter (\<lambda>r. JobID r = ID (mkJob j)) (collected s)) = 1" by simp
  qed
  from a b c d show ?thesis by blast
qed

theorem exactly_once_execution_witness:
  "reachable (exec full_schedule init_pool)
   \<and> mainpc (exec full_schedule init_pool) = MDone
   \<and> length (collected (exec full_schedule init_pool)) = numJobs
   \<and> length (filter (\<lambda>r. JobID r = ID (mkJob 7))
               (collected (exec full_schedule init_pool))) = 1
   \<and> mainpc init_pool \<noteq> MDone
   \<and> (\<exists>t s'. step t init_pool = Some s')
   \<and> step Main init_pool = Some (init_pool\<lparr>workers := [WRecv], mainpc := MSpawn 2\<rparr>)
   \<and> pool_measure (init_pool\<lparr>workers := [WRecv], mainpc := MSpawn 2\<rparr>) < pool_measure init_pool"
proof -
  let ?f = "exec full_schedule init_pool"
  let ?s1 = "init_pool\<lparr>workers := [WRecv], mainpc := MSpawn 2\<rparr>"
  have r: "reachable ?f" by (rule exec_reachable [OF reach_init])
  have pc: "mainpc ?f = MDone" by code_simp
  have seven: "1 \<le> (7::nat) \<and> 7 \<le> numJobs" by (simp add: numJobs_def)
  note F = exactly_once_execution [OF r]
  note I = exactly_once_execution [OF reach_init]
  from F pc have l: "length (collected ?f) = numJobs" by blast
  from F pc seven have c: "length (filter (\<lambda>r. JobID r = ID (mkJob 7)) (collected ?f)) = 1"
    by blast
  have n: "mainpc init_pool \<noteq> MDone" by (simp add: init_pool_def)
  from I n have e: "\<exists>t s'. step t init_pool = Some s'" by blast
  have st: "step Main init_pool = Some ?s1"
    by (simp add: step_def step_main_def init_pool_def numWorkers_def)
  from I st have m: "pool_measure ?s1 < pool_measure init_pool" by blast
  from r pc l c n e st m show ?thesis by blast
qed

text \<open>
  Claim C6, as stated, fails: once \<^verbatim>\<open>main\<close> has closed the jobs channel, a send of an
  eleventh job does not return a QueueClosed error; it panics.
\<close>
theorem submit_after_close_counterexample:
  "closed (jobs (exec (replicate 16 Main) init_pool))
   \<and> chan_send (mkJob 11) (jobs (exec (replicate 16 Main) init_pool)) = Panics"
  by code_simp

text \<open>
  Claim C6 as amended (graceful shutdown drains fully). When \<^verbatim>\<open>main\<close> has returned it
  has collected all \<open>numJobs\<close> results, the jobs channel is closed and empty, the
  results channel is empty and no worker holds a job. Until then a worker at its receive
  takes the next job whenever there is one, closed channel or not, and leaves its loop
  when the channel is closed and empty; a worker is past its loop only then. A send on
  the closed jobs channel panics: no QueueClosed error is returned.
\<close>
theorem graceful_shutdown_drains:
  assumes "reachable s"
  shows "(mainpc s = MDone \<longrightarrow>
            length (collected s) = numJobs \<and> closed (jobs s) \<and> buf (jobs s) = []
            \<and> buf (results s) = [] \<and> (\<forall>w \<in> set (workers s). w = WRecv \<or> w = WExit))
       \<and> (\<forall>i job rest. mainpc s \<noteq> MDone \<and> i < length (workers s) \<and> workers s ! i = WRecv
              \<and> buf (jobs s) = job # rest \<longrightarrow>
            step (Worker i) s
              = Some (s\<lparr>jobs := (jobs s)\<lparr>buf := rest\<rparr>, workers := (workers s)[i := WWork job]\<rparr>))
       \<and> (\<forall>i. mainpc s \<noteq> MDone \<and> i < length (workers s) \<and> workers s ! i = WRecv
              \<and> buf (jobs s) = [] \<and> closed (jobs s) \<longrightarrow>
            step (Worker i) s = Some (s\<lparr>workers := (workers s)[i := WExit]\<rparr>))
       \<and> (WExit \<in> set (workers s) \<longrightarrow> closed (jobs s) \<and> buf (jobs s) = [])
       \<and> (closed (jobs s) \<longrightarrow> (\<forall>job. chan_send job (jobs s) = Panics))"
proof -
  from assms have inv: "pool_inv s" by (rule reachable_inv)
  then have nc: "crashed s = None" by (simp add: pool_inv_def)
  have a: "length (collected s) = numJobs \<and> closed (jobs s) \<and> buf (jobs s) = []
      \<and> buf (results s) = [] \<and> (\<forall>w \<in> set (workers s). w = WRecv \<or> w = WExit)"
    if pc: "mainpc s = MDone"
  proof -
    from inv pc have "length (collected s) = numJobs" "closed (jobs s)"
      by (simp_all add: pool_inv_def main_ok_def jobs_closed_at_def)
    moreover from done_drained [OF inv pc] held_empty_idle
    have "buf (jobs s) = []" "buf (results s) = []"
      "\<forall>w \<in> set (workers s). w = WRecv \<or> w = WExit"
      by blast+
    ultimately show ?thesis by blast
  qed
  have b: "\<forall>i job rest. mainpc s \<noteq> MDone \<and> i < length (workers s) \<and> workers s ! i = WRecv
              \<and> buf (jobs s) = job # rest \<longrightarrow>
            step (Worker i) s
              = Some (s\<lparr>jobs := (jobs s)\<lparr>buf := rest\<rparr>, workers := (workers s)[i := WWork job]\<rparr>)"
    using nc by (simp add: step_def step_worker_def chan_recv_def)
  have c: "\<forall>i. mainpc s \<noteq> MDone \<and> i < length (workers s) \<and> workers s ! i = WRecv
              \<and> buf (jobs s) = [] \<and> closed (jobs s) \<longrightarrow>
            step (Worker i) s = Some (s\<lparr>workers := (workers s)[i := WExit]\<rparr>)"
    using nc by (simp add: step_def step_worker_def chan_recv_def)
  have d: "WExit \<in> set (workers s) \<longrightarrow> closed (jobs s) \<and> buf (jobs s) = []"
    using pool_inv_exit [OF inv] by blast
  have e: "closed (jobs s) \<longrightarrow> (\<forall>job. chan_send job (jobs s) = Panics)"
    by (simp add: chan_send_def)
  from a b c d e show ?thesis by blast
qed

theorem graceful_shutdown_drains_witness:
  "reachable (exec full_schedule init_pool)
   \<and> mainpc (exec full_schedule init_pool) = MDone
   \<and> length (collected (exec full_schedule init_pool)) = numJobs
   \<and> buf (jobs (exec full_schedule init_pool)) = []
   \<and> reachable (exec (take 46 full_schedule) init_pool)
   \<and> closed (jobs (exec (take 46 full_schedule) init_pool))
   \<and> step (Worker 0) (exec (take 46 full_schedule) init_pool)
       = Some ((exec (take 46 full_schedule) init_pool)
                \<lparr>workers := (workers (exec (take 46 full_schedule) init_pool))[0 := WExit]\<rparr>)
   \<and> chan_send (mkJob 11) (jobs (exec (take 46 full_schedule) init_pool)) = Panics"
proof -
  let ?f = "exec full_schedule init_pool"
  let ?d = "exec (take 46 full_schedule) init_pool"
  have rf: "reachable ?f" and rd: "reachable ?d"
    by (rule exec_reachable [OF reach_init])+
  note F = graceful_shutdown_drains [OF rf]
  note D = graceful_shutdown_drains [OF rd]
  have pc: "mainpc ?f = MDone" by code_simp
  from F pc have l: "length (collected ?f) = numJobs" and e: "buf (jobs ?f) = []" by blast+
  have h: "mainpc ?d \<noteq> MDone \<and> 0 < length (workers ?d) \<and> workers ?d ! 0 = WRecv
      \<and> buf (jobs ?d) = [] \<and> closed (jobs ?d)"
    by code_simp
  then have cl: "closed (jobs ?d)" by blast
  from D h have st: "step (Worker 0) ?d = Some (?d\<lparr>workers := (workers ?d)[0 := WExit]\<rparr>)"
    by blast
  from D cl have p: "chan_send (mkJob 11) (jobs ?d) = Panics" by blast
  from rf pc l e rd cl st p show ?thesis by blast
qed




text \<open>
  Claim C5, as stated, fails: the second non-blocking write of the select tutorial meets
  a full queue and drops its job, without blocking and without an error, and a send on
  the closed jobs channel of the worker pool panics instead of returning QueueClosed.
\<close>
theorem submit_contract_counterexample:
  "nonblocking_writes
     = Completes ([''Enqueued job'', ''Queue full, dropping job''], \<lparr>buf = [1], cap = 1, closed = False\<rparr>)
   \<and> try_send (2::int) \<lparr>buf = [1], cap = 1, closed = False\<rparr>
     = Completes (False, \<lparr>buf = [1], cap = 1, closed = False\<rparr>)
   \<and> chan_send (mkJob 11) (jobs (exec (replicate 16 Main) init_pool)) = Panics"
  by code_simp

text \<open>
  Claim C5 as amended (what a send does). A send blocks exactly when the channel is open
  and full; when it completes, the value has been appended to the queue, which was open
  and had a free slot; on a closed channel a send, blocking or not, panics (no error
  value is returned, and no send watches a cancellation scope). A non-blocking send on an
  open channel enqueues the value if there is a free slot and drops it otherwise. In the
  worker pool the send of each job by \<^verbatim>\<open>main\<close> completes and appends the job to the jobs
  channel.
\<close>
theorem send_contract:
  "(chan_send v c = Blocks \<longleftrightarrow> \<not> closed c \<and> cap c \<le> length (buf c))
   \<and> (chan_send v c = Completes c' \<longrightarrow>
        buf c' = buf c @ [v] \<and> cap c' = cap c \<and> \<not> closed c \<and> length (buf c) < cap c)
   \<and> (closed c \<longrightarrow> chan_send v c = Panics \<and> try_send v c = Panics)
   \<and> (\<not> closed c \<longrightarrow>
        try_send v c = (if length (buf c) < cap c then Completes (True, c\<lparr>buf := buf c @ [v]\<rparr>)
                        else Completes (False, c)))
   \<and> (reachable s \<and> mainpc s = MProduce j \<and> j \<le> numJobs \<longrightarrow>
        step Main s
          = Some (s\<lparr>jobs := (jobs s)\<lparr>buf := buf (jobs s) @ [mkJob j]\<rparr>, mainpc := MProduce (j + 1)\<rparr>))"
proof (intro conjI impI)
  show "chan_send v c = Blocks \<longleftrightarrow> \<not> closed c \<and> cap c \<le> length (buf c)"
    by (auto simp: chan_send_def)
  show "buf c' = buf c @ [v]" "cap c' = cap c" "\<not> closed c" "length (buf c) < cap c"
    if "chan_send v c = Completes c'"
    using that by (auto simp: chan_send_def split: if_splits)
  show "chan_send v c = Panics" "try_send v c = Panics" if "closed c"
    using that by (simp_all add: chan_send_def try_send_def)
  show "try_send v c = (if length (buf c) < cap c then Completes (True, c\<lparr>buf := buf c @ [v]\<rparr>)
                        else Completes (False, c))" if "\<not> closed c"
    using that by (simp add: chan_send_def try_send_def)
next
  assume h: "reachable s \<and> mainpc s = MProduce j \<and> j \<le> numJobs"
  then have inv: "pool_inv s" using reachable_inv by blast
  from h have pc: "mainpc s = MProduce j" and j: "j \<le> numJobs" by blast+
  from inv pc have nc: "\<not> closed (jobs s)" and capj: "cap (jobs s) = numJobs"
    and e: "buf (jobs s) = map mkJob [size (outs s) + 1 ..< next_job s]"
    and cr: "crashed s = None"
    by (simp_all add: pool_inv_def jobs_closed_at_def)
  have "length (buf (jobs s)) = next_job s - (size (outs s) + 1)"
    unfolding e by simp
  then have "length (buf (jobs s)) < numJobs"
    using pc j numJobs_pos by (simp add: next_job_def)
  then show "step Main s
          = Some (s\<lparr>jobs := (jobs s)\<lparr>buf := buf (jobs s) @ [mkJob j]\<rparr>, mainpc := MProduce (j + 1)\<rparr>)"
    using pc j nc capj cr by (simp add: step_def step_main_def chan_send_def)
qed

theorem send_contract_witness:
  "chan_send ''Job 3'' \<lparr>buf = [''Job 1'', ''Job 2''], cap = 2, closed = False\<rparr> = Blocks
   \<and> chan_send ''Job 2'' \<lparr>buf = [''Job 1''], cap = 2, closed = False\<rparr>
       = Completes \<lparr>buf = [''Job 1'', ''Job 2''], cap = 2, closed = False\<rparr>
   \<and> chan_send ''Job 3'' \<lparr>buf = [''Job 1''], cap = 2, closed = True\<rparr> = Panics
   \<and> try_send ''Job 3'' \<lparr>buf = [''Job 1'', ''Job 2''], cap = 2, closed = False\<rparr>
       = Completes (False, \<lparr>buf = [''Job 1'', ''Job 2''], cap = 2, closed = False\<rparr>)
   \<and> reachable (exec (replicate 6 Main) init_pool)
   \<and> mainpc (exec (replicate 6 Main) init_pool) = MProduce 3
   \<and> map ID (buf (jobs (exec (replicate 6 Main) init_pool))) = [1, 2]
   \<and> step Main (exec (replicate 6 Main) init_pool)
       = Some ((exec (replicate 6 Main) init_pool)
                \<lparr>jobs := (jobs (exec (replicate 6 Main) init_pool))
                           \<lparr>buf := buf (jobs (exec (replicate 6 Main) init_pool)) @ [mkJob 3]\<rparr>,
                  mainpc := MProduce (3 + 1)\<rparr>)"
proof -
  let ?s = "exec (replicate 6 Main) init_pool"
  let ?full = "\<lparr>buf = [''Job 1'', ''Job 2''], cap = 2, closed = False\<rparr>"
  let ?half = "\<lparr>buf = [''Job 1''], cap = 2, closed = False\<rparr>"
  let ?shut = "\<lparr>buf = [''Job 1''], cap = 2, closed = True\<rparr>"
  note F = send_contract [of "''Job 3''" ?full ?full ?s 3]
  note H = send_contract [of "''Job 2''" ?half ?full ?s 3]
  note S = send_contract [of "''Job 3''" ?shut ?full ?s 3]
  have "\<not> closed ?full \<and> cap ?full \<le> length (buf ?full)" by simp
  with F have a: "chan_send ''Job 3'' ?full = Blocks" by blast
  have b: "chan_send ''Job 2'' ?half = Completes ?full" by (simp add: chan_send_def)
  with H have "buf ?full = buf ?half @ [''Job 2'']" by blast
  have "closed ?shut" by simp
  with S have c: "chan_send ''Job 3'' ?shut = Panics" by blast
  have "\<not> closed ?full" by simp
  with F have "try_send ''Job 3'' ?full
      = (if length (buf ?full) < cap ?full then Completes (True, ?full\<lparr>buf := buf ?full @ [''Job 3'']\<rparr>)
         else Completes (False, ?full))"
    by blast
  then have d: "try_send ''Job 3'' ?full = Completes (False, ?full)" by simp
  have r: "reachable ?s" by (rule exec_reachable [OF reach_init])
  have pc: "mainpc ?s = MProduce 3" and le: "(3::nat) \<le> numJobs" by code_simp+
  have ids: "map ID (buf (jobs ?s)) = [1, 2]" by code_simp
  from F r pc le
  have st: "step Main ?s
      = Some (?s\<lparr>jobs := (jobs ?s)\<lparr>buf := buf (jobs ?s) @ [mkJob 3]\<rparr>, mainpc := MProduce (3 + 1)\<rparr>)"
    by blast
  from a b c d r pc ids st show ?thesis by blast
qed

text \<open>
  Claim C7, as stated, fails: closing \<^verbatim>\<open>workStream\<close> twice panics at the second close,
  and so does a close after \<^verbatim>\<open>producer\<close> has returned, since it has closed the channel.
\<close>
theorem close_twice_counterexample:
  "run_ops [Close, Close] workStream
     = ([Closed, Panicked], \<lparr>buf = [], cap = 5, closed = True\<rparr>)
   \<and> producer workStream = Completes \<lparr>buf = [1, 2, 3], cap = 5, closed = True\<rparr>
   \<and> chan_close \<lparr>buf = [1, 2, 3::int], cap = 5, closed = True\<rparr> = Panics"
  by code_simp

text \<open>
  Claim C7 as amended (close once). Closing an open channel completes and only sets its
  closed flag; a second close panics, as does any close of a closed channel; a send on
  the closed channel panics, while the values already queued are still received, in
  order, before receives report the channel closed. The worker pool closes its jobs
  channel exactly once (it is closed exactly when \<^verbatim>\<open>main\<close> is past its close statement),
  never closes the results channel and never crashes.
\<close>
theorem close_once:
  "(\<not> closed c \<longrightarrow>
      chan_close c = Completes (c\<lparr>closed := True\<rparr>)
      \<and> chan_close (c\<lparr>closed := True\<rparr>) = Panics
      \<and> chan_send v (c\<lparr>closed := True\<rparr>) = Panics
      \<and> run_ops (replicate (length (buf c) + 1) Recv) (c\<lparr>closed := True\<rparr>)
          = (map Deq (buf c) @ [DeqClosed], c\<lparr>closed := True, buf := []\<rparr>))
   \<and> (closed c \<longrightarrow> chan_close c = Panics)
   \<and> (reachable s \<longrightarrow>
        crashed s = None \<and> (closed (jobs s) \<longleftrightarrow> jobs_closed_at (mainpc s))
        \<and> \<not> closed (results s))"
proof (intro conjI impI)
  assume nc: "\<not> closed c"
  show "chan_close c = Completes (c\<lparr>closed := True\<rparr>)" using nc by (simp add: chan_close_def)
  show "chan_close (c\<lparr>closed := True\<rparr>) = Panics" by (simp add: chan_close_def)
  show "chan_send v (c\<lparr>closed := True\<rparr>) = Panics" by (simp add: chan_send_def)
  show "run_ops (replicate (length (buf c) + 1) Recv) (c\<lparr>closed := True\<rparr>)
          = (map Deq (buf c) @ [DeqClosed], c\<lparr>closed := True, buf := []\<rparr>)"
    using run_recvs_closed [of "c\<lparr>closed := True\<rparr>"] by simp
next
  assume "closed c"
  then show "chan_close c = Panics" by (simp add: chan_close_def)
next
  assume "reachable s"
  then have inv: "pool_inv s" by (rule reachable_inv)
  then show "crashed s = None" "closed (jobs s) \<longleftrightarrow> jobs_closed_at (mainpc s)"
    "\<not> closed (results s)"
    by (simp_all add: pool_inv_def)
qed

theorem close_once_witness:
  "send_all [1, 2, 3] workStream = Completes \<lparr>buf = [1, 2, 3], cap = 5, closed = False\<rparr>
   \<and> chan_close \<lparr>buf = [1, 2, 3::int], cap = 5, closed = False\<rparr>
       = Completes \<lparr>buf = [1, 2, 3], cap = 5, closed = True\<rparr>
   \<and> chan_close \<lparr>buf = [1, 2, 3::int], cap = 5, closed = True\<rparr> = Panics
   \<and> chan_send 4 \<lparr>buf = [1, 2, 3::int], cap = 5, closed = True\<rparr> = Panics
   \<and> run_ops (replicate 4 Recv) \<lparr>buf = [1, 2, 3::int], cap = 5, closed = True\<rparr>
       = ([Deq 1, Deq 2, Deq 3, DeqClosed], \<lparr>buf = [], cap = 5, closed = True\<rparr>)
   \<and> consumer \<lparr>buf = [1, 2, 3], cap = 5, closed = True\<rparr>
       = Completes ([1, 2, 3], \<lparr>buf = [], cap = 5, closed = True\<rparr>)
   \<and> reachable (exec full_schedule init_pool)
   \<and> crashed (exec full_schedule init_pool) = None"
proof -
  let ?c = "\<lparr>buf = [1, 2, 3::int], cap = 5, closed = False\<rparr>"
  let ?f = "exec full_schedule init_pool"
  have s: "send_all [1, 2, 3] workStream = Completes ?c" by code_simp
  have nc: "\<not> closed ?c" by simp
  have rf: "reachable ?f" by (rule exec_reachable [OF reach_init])
  note T = close_once [of ?c 4 ?f]
  from T nc have a: "chan_close ?c = Completes (?c\<lparr>closed := True\<rparr>)"
    and b: "chan_close (?c\<lparr>closed := True\<rparr>) = Panics"
    and c: "chan_send 4 (?c\<lparr>closed := True\<rparr>) = Panics"
    and d: "run_ops (replicate (length (buf ?c) + 1) Recv) (?c\<lparr>closed := True\<rparr>)
          = (map Deq (buf ?c) @ [DeqClosed], ?c\<lparr>closed := True, buf := []\<rparr>)"
    by blast+
  from T rf have e: "crashed ?f = None" by blast
  have k: "consumer \<lparr>buf = [1, 2, 3], cap = 5, closed = True\<rparr>
       = Completes ([1, 2, 3], \<lparr>buf = [], cap = 5, closed = True\<rparr>)"
    by code_simp
  from a b c d have "chan_close ?c = Completes \<lparr>buf = [1, 2, 3], cap = 5, closed = True\<rparr>"
    "chan_close \<lparr>buf = [1, 2, 3::int], cap = 5, closed = True\<rparr> = Panics"
    "chan_send 4 \<lparr>buf = [1, 2, 3::int], cap = 5, closed = True\<rparr> = Panics"
    "run_ops (replicate 4 Recv) \<lparr>buf = [1, 2, 3::int], cap = 5, closed = True\<rparr>
       = ([Deq 1, Deq 2, Deq 3, DeqClosed], \<lparr>buf = [], cap = 5, closed = True\<rparr>)"
    by (simp_all add: eval_nat_numeral)
  with s k rf e show ?thesis by blast
qed

section \<open>Properties of the pipeline\<close>

lemma pipeline_inv_init: "pipeline_inv xs (pipeline_init xs)"
  by (simp add: pipeline_inv_def pipeline_init_def)

lemma pipeline_inv_step:
  assumes "pipeline_inv xs s" "pstep a s = Some s'"
  shows "pipeline_inv xs s'"
proof (cases a)
  case HandIn
  with assms show ?thesis
    by (auto simp: pipeline_inv_def pstep_def split: list.splits if_splits)
next
  case CloseIn
  with assms show ?thesis
    by (auto simp: pipeline_inv_def pstep_def split: if_splits)
next
  case WorkerExit
  with assms show ?thesis
    by (auto simp: pipeline_inv_def pstep_def split: if_splits)
next
  case HandOut
  with assms show ?thesis
    by (cases "wk s") (auto simp: pipeline_inv_def pstep_def split: if_splits)
qed

lemma preachable_inv: "preachable xs s \<Longrightarrow> pipeline_inv xs s"
  by (induction rule: preachable.induct) (auto intro: pipeline_inv_init pipeline_inv_step)

lemma pmeasure_step:
  assumes "pstep a s = Some s'"
  shows "pmeasure s' < pmeasure s"
proof (cases a)
  case HandIn
  with assms show ?thesis
    by (auto simp: pmeasure_def pstep_def split: list.splits if_splits)
next
  case CloseIn
  with assms show ?thesis
    by (auto simp: pmeasure_def pstep_def split: if_splits)
next
  case WorkerExit
  with assms show ?thesis
    by (auto simp: pmeasure_def pstep_def split: if_splits)
next
  case HandOut
  with assms show ?thesis
    by (cases "wk s") (auto simp: pmeasure_def pstep_def split: if_splits)
qed

lemma pipeline_count:
  assumes "pipeline_inv xs s"
  shows "length (got s) + length (pending (wk s)) + length (feed s) = length xs"
proof -
  from assms have "got s @ pending (wk s) @ map (\<lambda>v. v * 2) (feed s) = map (\<lambda>v. v * 2) xs"
    by (simp add: pipeline_inv_def)
  from arg_cong [OF this, of length] show ?thesis by simp
qed

lemma pipeline_progress:
  assumes inv: "pipeline_inv xs s" and lt: "length (got s) < length xs"
  shows "\<exists>a s'. pstep a s = Some s'"
proof (cases "wk s")
  case PRecv
  from inv have "length (got s) + length (pending (wk s)) + length (feed s) = length xs"
    by (rule pipeline_count)
  with lt PRecv obtain v rest where "feed s = v # rest" by (cases "feed s") auto
  with PRecv have "pstep HandIn s = Some (s\<lparr>feed := rest, wk := PSend (v * 2)\<rparr>)"
    by (simp add: pstep_def)
  then show ?thesis by blast
next
  case (PSend w)
  from inv have "need s = length xs" by (simp add: pipeline_inv_def)
  with lt PSend have "pstep HandOut s = Some (s\<lparr>wk := PRecv, got := got s @ [w]\<rparr>)"
    by (simp add: pstep_def)
  then show ?thesis by blast
next
  case PExit
  with inv have "feed s = []" by (simp add: pipeline_inv_def)
  moreover from inv have "length (got s) + length (pending (wk s)) + length (feed s) = length xs"
    by (rule pipeline_count)
  ultimately show ?thesis using lt PExit by simp
qed

lemma pipeline_prefix:
  assumes inv: "pipeline_inv xs s"
  shows "got s = take (length (got s)) (map (\<lambda>v. v * 2) xs)"
proof -
  from inv have "got s @ pending (wk s) @ map (\<lambda>v. v * 2) (feed s) = map (\<lambda>v. v * 2) xs"
    by (simp add: pipeline_inv_def)
  then show ?thesis by (metis append_eq_conv_conj)
qed

lemma pipeline_final:
  assumes inv: "pipeline_inv xs s" and len: "length (got s) = length xs"
  shows "got s = map (\<lambda>v. v * 2) xs"
  using pipeline_prefix [OF inv] len by simp

lemma pexec_reachable: "preachable xs s \<Longrightarrow> preachable xs (pexec as s)"
proof (induction as arbitrary: s)
  case Nil
  then show ?case by simp
next
  case (Cons a as)
  show ?case
  proof (cases "pstep a s")
    case None
    then show ?thesis using Cons by simp
  next
    case (Some s')
    with Cons.prems have "preachable xs s'" by (auto intro: preach_step)
    then show ?thesis using Some Cons.IH by simp
  qed
qed

lemma double_no_overflow:
  fixes v :: go_int
  assumes "- (2 ^ 62) \<le> sint v" "sint v < 2 ^ 62"
  shows "sint (v * 2) = 2 * sint v"
proof -
  have "sint (v * 2) = signed_take_bit 63 (sint v * sint (2 :: go_int))"
    using sint_word_mult [of v 2] by simp
  also have "sint (2 :: go_int) = 2" by simp
  finally have "sint (v * 2) = signed_take_bit 63 (sint v * 2)" .
  also have "\<dots> = sint v * 2"
    using assms by (intro signed_take_bit_int_eq_self) simp_all
  finally show ?thesis by simp
qed

section \<open>The claim about the pipeline\<close>

text \<open>
  Claim C10, as stated, fails: fed the single value \<open>2 ^ 62\<close>, the worker's one output
  is \<open>- 2 ^ 63\<close>, which is not twice its input; the doubling wraps around.
\<close>
theorem pipeline_double_counterexample:
  "got (pexec (in_turn 1) (pipeline_init [4611686018427387904])) = [- 9223372036854775808]
   \<and> sint (hd (got (pexec (in_turn 1) (pipeline_init [4611686018427387904]))))
       \<noteq> 2 * sint (4611686018427387904 :: go_int)"
proof -
  have g: "got (pexec (in_turn 1) (pipeline_init [4611686018427387904]))
      = [- 9223372036854775808]"
    by (simp add: in_turn_def pstep_def pipeline_init_def)
  have "sint (- 9223372036854775808 :: go_int) = - 9223372036854775808"
    and "sint (4611686018427387904 :: go_int) = 4611686018427387904"
    by simp_all
  with g show ?thesis by simp
qed

text \<open>
  Claim C10 as amended (single-worker pipeline). For every list of inputs and every
  state the pipeline reaches, the results received so far are the first outputs in input
  order, each the input times 2 in wrapping 64-bit arithmetic; every step reduces the
  measure and some step is possible until as many results as inputs have been received,
  so every run delivers exactly one output per input, in input order. An output is exactly
  twice its input whenever the input lies between \<open>- 2 ^ 62\<close> and \<open>2 ^ 62 - 1\<close>.
\<close>
theorem pipeline_in_order:
  assumes "preachable xs s"
  shows "got s = take (length (got s)) (map (\<lambda>v. v * 2) xs)
       \<and> length (got s) \<le> length xs
       \<and> (\<forall>a s'. pstep a s = Some s' \<longrightarrow> pmeasure s' < pmeasure s)
       \<and> (length (got s) < length xs \<longrightarrow> (\<exists>a s'. pstep a s = Some s'))
       \<and> (length (got s) = length xs \<longrightarrow>
            got s = map (\<lambda>v. v * 2) xs
            \<and> (\<forall>i < length xs. - (2 ^ 62) \<le> sint (xs ! i) \<and> sint (xs ! i) < 2 ^ 62
                  \<longrightarrow> sint (got s ! i) = 2 * sint (xs ! i)))"
proof -
  from assms have inv: "pipeline_inv xs s" by (rule preachable_inv)
  have a: "got s = take (length (got s)) (map (\<lambda>v. v * 2) xs)"
    using inv by (rule pipeline_prefix)
  have b: "length (got s) \<le> length xs"
  proof -
    from inv have "length (got s) + length (pending (wk s)) + length (feed s) = length xs"
      by (rule pipeline_count)
    then show ?thesis by simp
  qed
  have c: "\<forall>a s'. pstep a s = Some s' \<longrightarrow> pmeasure s' < pmeasure s"
    using pmeasure_step by blast
  have d: "length (got s) < length xs \<longrightarrow> (\<exists>a s'. pstep a s = Some s')"
    using pipeline_progress [OF inv] by blast
  have e: "got s = map (\<lambda>v. v * 2) xs
      \<and> (\<forall>i < length xs. - (2 ^ 62) \<le> sint (xs ! i) \<and> sint (xs ! i) < 2 ^ 62
            \<longrightarrow> sint (got s ! i) = 2 * sint (xs ! i))"
    if len: "length (got s) = length xs"
  proof -
    have g: "got s = map (\<lambda>v. v * 2) xs" using inv len by (rule pipeline_final)
    then show ?thesis by (simp add: double_no_overflow)
  qed
  from a b c d e show ?thesis by blast
qed

theorem pipeline_in_order_witness:
  "preachable test_inputs (pexec (in_turn 5) (pipeline_init test_inputs))
   \<and> length (got (pexec (in_turn 5) (pipeline_init test_inputs))) = length test_inputs
   \<and> got (pexec (in_turn 5) (pipeline_init test_inputs)) = expected
   \<and> first_mismatch (got (pexec (in_turn 5) (pipeline_init test_inputs))) = None
   \<and> sint (got (pexec (in_turn 5) (pipeline_init test_inputs)) ! 2) = 6
   \<and> length (got (pipeline_init test_inputs)) < length test_inputs
   \<and> (\<exists>a s'. pstep a (pipeline_init test_inputs) = Some s')"
proof -
  let ?f = "pexec (in_turn 5) (pipeline_init test_inputs)"
  let ?i = "pipeline_init test_inputs"
  have rf: "preachable test_inputs ?f" by (rule pexec_reachable [OF preach_init])
  note F = pipeline_in_order [OF rf]
  note I = pipeline_in_order [OF preach_init, of test_inputs]
  have len: "length (got ?f) = length test_inputs"
    by (simp add: in_turn_def pstep_def pipeline_init_def test_inputs_def eval_nat_numeral)
  from F len have g: "got ?f = map (\<lambda>v. v * 2) test_inputs" by blast
  then have ex: "got ?f = expected" by (simp add: test_inputs_def expected_def)
  then have fm: "first_mismatch (got ?f) = None"
    by (simp add: first_mismatch_def expected_def upt_rec)
  have rng: "2 < length test_inputs \<and> - (2 ^ 62) \<le> sint (test_inputs ! 2)
      \<and> sint (test_inputs ! 2) < 2 ^ 62"
    by (simp add: test_inputs_def)
  from F len rng have "sint (got ?f ! 2) = 2 * sint (test_inputs ! 2)" by blast
  then have s6: "sint (got ?f ! 2) = 6" by (simp add: test_inputs_def)
  have lt: "length (got ?i) < length test_inputs"
    by (simp add: pipeline_init_def test_inputs_def)
  from I lt have pr: "\<exists>a s'. pstep a ?i = Some s'" by blast
  from rf len ex fm s6 lt pr show ?thesis by blast
qed

section \<open>Properties of cancellation scopes\<close>

lemma scope_step_done: "err c \<noteq> None \<Longrightarrow> scope_step e c = c"
  by (cases e) (auto simp: Cancel_def clock_reaches_def)

lemma scope_run_done: "err c \<noteq> None \<Longrightarrow> scope_run es c = c"
  by (induction es) (simp_all add: scope_step_done)

lemma scope_step_becomes_done: "scope_step e c \<noteq> c \<Longrightarrow> err (scope_step e c) \<noteq> None"
  by (cases e) (auto simp: Cancel_def clock_reaches_def split: if_splits)

lemma transitions_done: "err c \<noteq> None \<Longrightarrow> transitions es c = 0"
  by (induction es) (simp_all add: scope_step_done)

lemma transitions_le_1: "transitions es c \<le> 1"
proof (induction es arbitrary: c)
  case Nil
  then show ?case by simp
next
  case (Cons e es)
  show ?case
  proof (cases "scope_step e c = c")
    case True
    then show ?thesis using Cons.IH [of c] by simp
  next
    case False
    then have "err (scope_step e c) \<noteq> None" by (rule scope_step_becomes_done)
    then have "transitions es (scope_step e c) = 0" by (rule transitions_done)
    then show ?thesis by simp
  qed
qed

lemma scope_run_append: "scope_run (es1 @ es2) c = scope_run es2 (scope_run es1 c)"
  by (induction es1 arbitrary: c) simp_all

lemma transitions_cancel:
  "err c = None \<Longrightarrow> DoCancel \<in> set es \<Longrightarrow> transitions es c = 1"
proof (induction es arbitrary: c)
  case Nil
  then show ?case by simp
next
  case (Cons e es)
  show ?case
  proof (cases "scope_step e c = c")
    case True
    have "e \<noteq> DoCancel"
    proof
      assume "e = DoCancel"
      with True Cons.prems(1) have "c\<lparr>triggered := True, err := Some Cancelled\<rparr> = c"
        by (simp add: Cancel_def)
      from arg_cong [OF this, of err] Cons.prems(1) show False by simp
    qed
    with Cons.prems(2) have "DoCancel \<in> set es" by simp
    with Cons.IH [OF Cons.prems(1)] True show ?thesis by simp
  next
    case False
    then have "err (scope_step e c) \<noteq> None" by (rule scope_step_becomes_done)
    then have "transitions es (scope_step e c) = 0" by (rule transitions_done)
    with False show ?thesis by simp
  qed
qed

lemma await_aborted:
  "await c evs = (Some (Aborted e), c') \<Longrightarrow> e \<noteq> None \<and> e = Err c' \<and> Done c'"
proof (induction c evs rule: await.induct)
  case (1 ctx)
  then show ?case by simp
next
  case (2 ctx es)
  then show ?case by simp
next
  case (3 ctx ev es)
  show ?case
  proof (cases "Done (scope_step ev ctx)")
    case True
    with "3.prems" have "e = Err (scope_step ev ctx)" "c' = scope_step ev ctx" by auto
    with True show ?thesis by (simp add: Done_def Err_def)
  next
    case False
    with "3.prems" have "await (scope_step ev ctx) es = (Some (Aborted e), c')" by simp
    with False show ?thesis by (rule "3.IH")
  qed
qed

lemma makeRequest_aborted:
  assumes "makeRequest ready pick c evs = (Some (Aborted e), c')"
  shows "e \<noteq> None \<and> e = Err c' \<and> Done c'"
proof (cases "Done c")
  case True
  with assms have "e = Err c" "c' = c" by (auto simp: makeRequest_def split: if_splits)
  with True show ?thesis by (simp add: Done_def Err_def)
next
  case False
  with assms have "await c evs = (Some (Aborted e), c')"
    by (auto simp: makeRequest_def split: if_splits)
  then show ?thesis by (rule await_aborted)
qed

text \<open>
  Claim C8 (cancellation monotonicity). Cancel is idempotent; Err is nil for a new scope,
  Cancelled after a manual cancel of a live scope and DeadlineExceeded once the clock
  reaches the deadline of a live scope; in any sequence of cancels and clock readings at
  most one event changes the scope, and exactly one when a live scope is cancelled in it,
  however often; a scope that is done is left unchanged by whatever follows, so it stays
  done and Err, once not nil, keeps its value. When \<^verbatim>\<open>makeRequest\<close> is aborted, the
  reason it reports is not nil and the scope is done.
\<close>
theorem cancellation_monotone:
  "Cancel (Cancel c) = Cancel c
   \<and> Err (new_scope d) = None
   \<and> (Err c = None \<longrightarrow> Err (Cancel c) = Some Cancelled)
   \<and> (Err c = None \<and> deadline c = Some dl \<and> dl \<le> t
        \<longrightarrow> Err (clock_reaches t c) = Some DeadlineExceeded)
   \<and> transitions es c \<le> 1
   \<and> (Err c = None \<and> DoCancel \<in> set es \<longrightarrow> transitions es c = 1)
   \<and> (Done c \<longrightarrow> scope_run es c = c)
   \<and> (Err (scope_run es c) \<noteq> None \<longrightarrow>
        Done (scope_run (es @ es') c) \<and> Err (scope_run (es @ es') c) = Err (scope_run es c))
   \<and> (makeRequest ready pick c evs = (Some (Aborted e), c')
        \<longrightarrow> e \<noteq> None \<and> e = Err c' \<and> Done c')"
proof (intro conjI impI)
  show "Cancel (Cancel c) = Cancel c" by (simp add: Cancel_def)
  show "Err (new_scope d) = None" by (simp add: Err_def new_scope_def)
  show "Err (Cancel c) = Some Cancelled" if "Err c = None"
    using that by (simp add: Err_def Cancel_def)
  show "Err (clock_reaches t c) = Some DeadlineExceeded"
    if "Err c = None \<and> deadline c = Some dl \<and> dl \<le> t"
    using that by (simp add: Err_def clock_reaches_def)
  show "transitions es c \<le> 1" by (rule transitions_le_1)
  show "transitions es c = 1" if "Err c = None \<and> DoCancel \<in> set es"
    using that by (simp add: Err_def transitions_cancel)
  show "scope_run es c = c" if "Done c"
    using that by (simp add: Done_def scope_run_done)
next
  assume h: "Err (scope_run es c) \<noteq> None"
  then have "scope_run (es @ es') c = scope_run es c"
    by (simp add: scope_run_append scope_run_done Err_def)
  with h show "Done (scope_run (es @ es') c)"
    and "Err (scope_run (es @ es') c) = Err (scope_run es c)"
    by (simp_all add: Done_def Err_def)
next
  assume "makeRequest ready pick c evs = (Some (Aborted e), c')"
  from makeRequest_aborted [OF this] show "e \<noteq> None" "e = Err c'" "Done c'" by blast+
qed

theorem cancellation_monotone_witness:
  "Err (scope_run [Clock 1] timeout_scope) = None
   \<and> Err (scope_run [Clock 1, Clock 2] timeout_scope) = Some DeadlineExceeded
   \<and> Err (scope_run ([Clock 1, Clock 2] @ [DoCancel, Clock 9]) timeout_scope) = Some DeadlineExceeded
   \<and> Err manual_scope = None
   \<and> Err (Cancel manual_scope) = Some Cancelled
   \<and> Cancel (Cancel manual_scope) = Cancel manual_scope
   \<and> Done (Cancel manual_scope)
   \<and> scope_run [DoCancel, Clock 3, DoCancel] (Cancel manual_scope) = Cancel manual_scope
   \<and> transitions [Clock 1, DoCancel, DoCancel, Clock 3] manual_scope = 1
   \<and> Err (clock_reaches 2 timeout_scope) = Some DeadlineExceeded
   \<and> makeRequest False False timeout_scope [ScopeEvent (Clock 1), ScopeEvent (Clock 2), TimerFired]
       = (Some (Aborted (Some DeadlineExceeded)), clock_reaches 2 timeout_scope)
   \<and> makeRequest False False manual_scope [ScopeEvent (Clock 1), ScopeEvent DoCancel, TimerFired]
       = (Some (Aborted (Some Cancelled)), Cancel manual_scope)
   \<and> Done (clock_reaches 2 timeout_scope)"
proof -
  let ?t2 = "clock_reaches 2 timeout_scope"
  note T = cancellation_monotone [where c = timeout_scope and d = "Some 2" and dl = 2 and t = 2
      and es = "[Clock 1, Clock 2]" and es' = "[DoCancel, Clock 9]"
      and evs = "[ScopeEvent (Clock 1), ScopeEvent (Clock 2), TimerFired]"
      and e = "Some DeadlineExceeded" and c' = ?t2 and ready = False and pick = False]
  note M = cancellation_monotone [where c = manual_scope and d = None
      and es = "[Clock 1, DoCancel, DoCancel, Clock 3]"
      and evs = "[ScopeEvent (Clock 1), ScopeEvent DoCancel, TimerFired]"
      and e = "Some Cancelled" and c' = "Cancel manual_scope" and ready = False and pick = False]
  note C = cancellation_monotone [where c = "Cancel manual_scope"
      and es = "[DoCancel, Clock 3, DoCancel]"]
  have a: "Err (scope_run [Clock 1] timeout_scope) = None"
    by (simp add: Err_def timeout_scope_def new_scope_def clock_reaches_def)
  have b: "Err (scope_run [Clock 1, Clock 2] timeout_scope) = Some DeadlineExceeded"
    by (simp add: Err_def timeout_scope_def new_scope_def clock_reaches_def)
  then have "Err (scope_run [Clock 1, Clock 2] timeout_scope) \<noteq> None" by simp
  with T have "Err (scope_run ([Clock 1, Clock 2] @ [DoCancel, Clock 9]) timeout_scope)
      = Err (scope_run [Clock 1, Clock 2] timeout_scope)"
    by blast
  with b have c: "Err (scope_run ([Clock 1, Clock 2] @ [DoCancel, Clock 9]) timeout_scope)
      = Some DeadlineExceeded"
    by simp
  have d: "Err manual_scope = None" using M by (simp add: manual_scope_def)
  with M have e: "Err (Cancel manual_scope) = Some Cancelled" by blast
  from M have f: "Cancel (Cancel manual_scope) = Cancel manual_scope" by blast
  from e have g: "Done (Cancel manual_scope)" by (simp add: Done_def Err_def)
  with C have h: "scope_run [DoCancel, Clock 3, DoCancel] (Cancel manual_scope) = Cancel manual_scope"
    by blast
  have "DoCancel \<in> set [Clock 1, DoCancel, DoCancel, Clock 3]" by simp
  with M d have i: "transitions [Clock 1, DoCancel, DoCancel, Clock 3] manual_scope = 1"
    by blast
  have "Err timeout_scope = None \<and> deadline timeout_scope = Some 2 \<and> (2::nat) \<le> 2"
    by (simp add: Err_def timeout_scope_def new_scope_def)
  with T have j: "Err ?t2 = Some DeadlineExceeded" by blast
  have k: "makeRequest False False timeout_scope
        [ScopeEvent (Clock 1), ScopeEvent (Clock 2), TimerFired]
       = (Some (Aborted (Some DeadlineExceeded)), ?t2)"
    by (simp add: makeRequest_def Done_def Err_def timeout_scope_def new_scope_def
        clock_reaches_def)
  have l: "makeRequest False False manual_scope
        [ScopeEvent (Clock 1), ScopeEvent DoCancel, TimerFired]
       = (Some (Aborted (Some Cancelled)), Cancel manual_scope)"
    by (simp add: makeRequest_def Done_def Err_def manual_scope_def new_scope_def
        clock_reaches_def Cancel_def)
  from T k have m: "Done ?t2" by blast
  from a b c d e f g h i j k l m show ?thesis by blast
qed

section \<open>The claim about nil errors\<close>

text \<open>
  Claim C9 fails for \<^verbatim>\<open>doWork\<close>: \<^verbatim>\<open>doWork(false)\<close> returns an interface value whose
  dynamic type is \<^verbatim>\<open>*CustomError\<close> and whose pointer is nil, which does not compare equal
  to nil, while \<^verbatim>\<open>doWorkFixed(false)\<close> returns the nil interface.
\<close>
theorem doWork_returns_typed_nil:
  "doWork False = \<lparr>itype = Some CustomErrorPtr, ivalue = None\<rparr>
   \<and> is_nil (doWork False) = False
   \<and> is_nil (doWorkFixed False) = True"
  by (simp add: doWork_def doWorkFixed_def as_error_def nil_error_def is_nil_def)

end
